theory Spec2Isabelle
  imports Complex_Main "HOL-Library.Sublist"
begin

section \<open>Strings as the type mapper uses them\<close>

text \<open>
  The source works on JavaScript strings. They are modelled as \<open>string\<close> (a list of
  8-bit characters, read as the code points U+0000 .. U+00FF); the type names that
  MySQL's \<open>DESCRIBE\<close> returns are ASCII. \<open>toLowerCase\<close> is the Unicode lower-casing
  restricted to that range: A-Z and the Latin-1 capitals U+00C0 .. U+00DE (without the
  multiplication sign U+00D7) move up by 32, every other character stays.
\<close>

definition lower_char :: "char \<Rightarrow> char" where
  "lower_char c =
     (let n = of_char c :: nat
      in if (65 \<le> n \<and> n \<le> 90) \<or> (192 \<le> n \<and> n \<le> 222 \<and> n \<noteq> 215)
         then char_of (n + 32) else c)"

definition toLowerCase :: "string \<Rightarrow> string" where
  "toLowerCase s = map lower_char s"

text \<open>
  \<open>s.startsWith(p)\<close> and \<open>s.includes(p)\<close> (named \<open>str_includes\<close> here:
  \<open>includes\<close> is a keyword of Isabelle).
\<close>

fun startsWith :: "string \<Rightarrow> string \<Rightarrow> bool" where
  "startsWith s [] = True"
| "startsWith [] (p # ps) = False"
| "startsWith (c # cs) (p # ps) = (c = p \<and> startsWith cs ps)"

fun str_includes :: "string \<Rightarrow> string \<Rightarrow> bool" where
  "str_includes [] p = startsWith [] p"
| "str_includes (c # cs) p = (startsWith (c # cs) p \<or> str_includes cs p)"

text \<open>The regular expression class \<open>\d\<close>: the ASCII digits.\<close>

definition is_digit :: "char \<Rightarrow> bool" where
  "is_digit c = (let n = of_char c :: nat in 48 \<le> n \<and> n \<le> 57)"

text \<open>
  \<open>digits_then s stop\<close> matches \<open>(\d+)\<close> followed by the literal \<open>stop\<close> at the very
  start of \<open>s\<close>: it returns the captured digits and the text after \<open>stop\<close>. The group
  is greedy, and giving digits back cannot help, since the character after a shorter
  run is a digit and \<open>stop\<close> starts with none.
\<close>

definition digits_then :: "string \<Rightarrow> string \<Rightarrow> (string \<times> string) option" where
  "digits_then s stop =
     (let ds = takeWhile is_digit s; rest = dropWhile is_digit s
      in if ds \<noteq> [] \<and> startsWith rest stop
         then Some (ds, drop (length stop) rest) else None)"

text \<open>
  \<open>type.match(/varchar\((\d+)\)/)\<close>: the leftmost position where the pattern matches;
  the result is capture group 1, or \<open>None\<close> for JavaScript's \<open>null\<close>.
\<close>

definition varchar_at :: "string \<Rightarrow> string option" where
  "varchar_at s =
     (if startsWith s ''varchar(''
      then map_option fst (digits_then (drop 8 s) '')'')
      else None)"

fun match_varchar :: "string \<Rightarrow> string option" where
  "match_varchar [] = None"
| "match_varchar (c # cs) =
     (case varchar_at (c # cs) of Some g \<Rightarrow> Some g | None \<Rightarrow> match_varchar cs)"

text \<open>\<open>type.match(/decimal\((\d+),(\d+)\)/)\<close>: capture groups 1 and 2.\<close>

definition decimal_at :: "string \<Rightarrow> (string \<times> string) option" where
  "decimal_at s =
     (if startsWith s ''decimal(''
      then (case digits_then (drop 8 s) '','' of
              None \<Rightarrow> None
            | Some (p, rest) \<Rightarrow>
                (case digits_then rest '')'' of
                   None \<Rightarrow> None
                 | Some (q, _) \<Rightarrow> Some (p, q)))
      else None)"

fun match_decimal :: "string \<Rightarrow> (string \<times> string) option" where
  "match_decimal [] = None"
| "match_decimal (c # cs) =
     (case decimal_at (c # cs) of Some g \<Rightarrow> Some g | None \<Rightarrow> match_decimal cs)"

section \<open>The type mapper\<close>

text \<open>
  \<open>convertDataType\<close> (copy-table-mysql-to-postgres.js, lines 80-111): a chain of
  \<open>includes\<close> tests on the lower-cased type, the first hit decides.
\<close>

definition convertDataType :: "string \<Rightarrow> string" where
  "convertDataType mysqlType =
     (let type = toLowerCase mysqlType in
      if str_includes type ''int('' then ''INTEGER''
      else if str_includes type ''bigint'' then ''BIGINT''
      else if str_includes type ''smallint'' then ''SMALLINT''
      else if str_includes type ''tinyint(1)'' then ''BOOLEAN''
      else if str_includes type ''tinyint'' then ''INTEGER''
      else if str_includes type ''varchar'' then
        (case match_varchar type of
           Some n \<Rightarrow> ''VARCHAR('' @ n @ '')''
         | None \<Rightarrow> ''VARCHAR(255)'')
      else if str_includes type ''text'' then ''TEXT''
      else if str_includes type ''longtext'' then ''TEXT''
      else if str_includes type ''mediumtext'' then ''TEXT''
      else if str_includes type ''decimal'' then
        (case match_decimal type of
           Some (p, q) \<Rightarrow> ''DECIMAL('' @ p @ '','' @ q @ '')''
         | None \<Rightarrow> ''DECIMAL'')
      else if str_includes type ''float'' then ''REAL''
      else if str_includes type ''double'' then ''DOUBLE PRECISION''
      else if str_includes type ''datetime'' then ''TIMESTAMP''
      else if str_includes type ''timestamp'' then ''TIMESTAMP''
      else if str_includes type ''date'' then ''DATE''
      else if str_includes type ''time'' then ''TIME''
      else if str_includes type ''json'' then ''JSON''
      else if str_includes type ''enum'' then ''VARCHAR(50)''
      else ''TEXT'')"

text \<open>
  The patterns of the chain, in the order they are tested, and the target types the
  mapper can produce: the fixed names, \<open>VARCHAR(n)\<close> and \<open>DECIMAL(p,q)\<close> with
  non-empty digit strings. \<open>valid_target_type\<close> is the reading of the specification's
  "valid target type string": a well-formed type expression of the target dialect.
\<close>

definition type_patterns :: "string list" where
  "type_patterns =
     [''int('', ''bigint'', ''smallint'', ''tinyint(1)'', ''tinyint'', ''varchar'',
      ''text'', ''longtext'', ''mediumtext'', ''decimal'', ''float'', ''double'',
      ''datetime'', ''timestamp'', ''date'', ''time'', ''json'', ''enum'']"

definition fixed_target_types :: "string list" where
  "fixed_target_types =
     [''INTEGER'', ''BIGINT'', ''SMALLINT'', ''BOOLEAN'', ''TEXT'', ''DECIMAL'', ''REAL'',
      ''DOUBLE PRECISION'', ''TIMESTAMP'', ''DATE'', ''TIME'', ''JSON'']"

definition valid_target_type :: "string \<Rightarrow> bool" where
  "valid_target_type t =
     (t \<in> set fixed_target_types
      \<or> (startsWith t ''VARCHAR('' \<and> 
           (case digits_then (drop 8 t) '')'' of None \<Rightarrow> False | Some (n, rest) \<Rightarrow> rest = []))
      \<or> (startsWith t ''DECIMAL('' \<and>
           (case digits_then (drop 8 t) '','' of
              None \<Rightarrow> False
            | Some (p, rest) \<Rightarrow>
                (case digits_then rest '')'' of None \<Rightarrow> False | Some (q, rest') \<Rightarrow> rest' = []))))"

section \<open>Default values\<close>

text \<open>
  The \<open>Default\<close> field of a \<open>DESCRIBE\<close> row is \<open>null\<close> or a string; the code also
  provides for a number (\<open>defaultStr === 0\<close>, \<open>typeof defaultValue === 'string'\<close>).
  Numbers are modelled as integers, \<open>toString\<close> is their decimal notation.
\<close>

datatype jsval = JNull | JStr string | JNum int

function show_nat :: "nat \<Rightarrow> string" where
  "show_nat n =
     (if n < 10 then [char_of (48 + n)]
      else show_nat (n div 10) @ [char_of (48 + n mod 10)])"
  by pat_completeness auto
termination
  by (relation "measure (\<lambda>n. n)") auto

declare show_nat.simps [simp del]

definition show_int :: "int \<Rightarrow> string" where
  "show_int i = (if i < 0 then CHR ''-'' # show_nat (nat (- i)) else show_nat (nat i))"

fun toString :: "jsval \<Rightarrow> string" where
  "toString JNull = ''null''"
| "toString (JStr s) = s"
| "toString (JNum i) = show_int i"

text \<open>
  \<open>convertDefaultValue\<close> (lines 114-141). \<open>defaultStr === 0\<close> and
  \<open>defaultStr === 1\<close> compare a string with a number by strict equality and are
  false; the second test of \<open>current_timestamp\<close> is the source's.
\<close>

definition quoted :: "string \<Rightarrow> string" where
  "quoted s = [CHR 0x27] @ s @ [CHR 0x27]"

definition convertDefaultValue :: "jsval \<Rightarrow> string \<Rightarrow> jsval" where
  "convertDefaultValue defaultValue dataType =
     (if defaultValue = JNull \<or> defaultValue = JStr ''NULL'' then JNull
      else
        let defaultStr = toLowerCase (toString defaultValue) in
        if str_includes defaultStr ''current_timestamp'' \<or> str_includes defaultStr ''now()''
        then JStr ''CURRENT_TIMESTAMP''
        else if defaultStr = ''0'' then JStr ''0''
        else if defaultStr = ''1'' then JStr ''1''
        else
          (case defaultValue of
             JStr d \<Rightarrow>
               if \<not> str_includes defaultStr ''current_timestamp''
               then JStr (quoted d) else defaultValue
           | _ \<Rightarrow> defaultValue))"

section \<open>The schema builder\<close>

text \<open>A row of \<open>DESCRIBE\<close>: the fields \<open>Field\<close>, \<open>Type\<close>, \<open>Null\<close>, \<open>Key\<close>, \<open>Default\<close>.\<close>

record column =
  col_Field :: string
  col_Type :: string
  col_Null :: string
  col_Key :: string
  col_Default :: jsval

definition newline :: string where
  "newline = [CHR 0x0A]"

text \<open>\<open>xs.join(sep)\<close>.\<close>

fun join :: "string \<Rightarrow> string list \<Rightarrow> string" where
  "join sep [] = []"
| "join sep [x] = x"
| "join sep (x # y # ys) = x @ sep @ join sep (y # ys)"

text \<open>The callback of \<open>columns.map\<close> (lines 154-169).\<close>

definition columnDefinition :: "column \<Rightarrow> string" where
  "columnDefinition col =
     (let definition0 = ''    '' @ col_Field col @ '' '' @ convertDataType (col_Type col);
          definition1 =
            (if col_Null col = ''NO'' \<and> col_Key col \<noteq> ''PRI''
             then definition0 @ '' NOT NULL'' else definition0);
          convertedDefault = convertDefaultValue (col_Default col) (col_Type col)
      in if convertedDefault \<noteq> JNull
         then definition1 @ '' DEFAULT '' @ toString convertedDefault
         else definition1)"

text \<open>
  The statement text built in lines 152-179; \<open>columns.find\<close> is \<open>find\<close>, the first
  column whose \<open>Key\<close> is \<open>PRI\<close>.
\<close>

definition createSQL :: "string \<Rightarrow> column list \<Rightarrow> string" where
  "createSQL tableName columns =
     (let sql0 = ''CREATE TABLE '' @ tableName @ '' ('' @ newline;
          sql1 = sql0 @ join ('','' @ newline) (map columnDefinition columns);
          sql2 =
            (case find (\<lambda>col. col_Key col = ''PRI'') columns of
               Some primaryKey \<Rightarrow>
                 sql1 @ '','' @ newline @ ''    PRIMARY KEY ('' @ col_Field primaryKey @ '')''
             | None \<Rightarrow> sql1)
      in sql2 @ newline @ '')'')"

section \<open>The world the transfer runs in\<close>

text \<open>
  The numbers of the progress line. JavaScript numbers are IEEE doubles; the model keeps
  the finite ones exact (real numbers) and has the three non-finite values, so that a
  division by zero gives what it gives in JavaScript: no exception, but \<open>Infinity\<close>,
  \<open>-Infinity\<close> or \<open>NaN\<close>. The sign of zero is not modelled (a zero divisor counts as
  \<open>+0\<close>).
\<close>

datatype jsnum = Num real | Infinity | NegInfinity | NaN

fun js_div :: "jsnum \<Rightarrow> jsnum \<Rightarrow> jsnum" where
  "js_div (Num a) (Num b) =
     (if b \<noteq> 0 then Num (a / b)
      else if a = 0 then NaN else if 0 < a then Infinity else NegInfinity)"
| "js_div (Num a) Infinity = Num 0"
| "js_div (Num a) NegInfinity = Num 0"
| "js_div Infinity (Num b) = (if 0 \<le> b then Infinity else NegInfinity)"
| "js_div NegInfinity (Num b) = (if 0 \<le> b then NegInfinity else Infinity)"
| "js_div _ _ = NaN"

fun Math_round :: "jsnum \<Rightarrow> jsnum" where
  "Math_round (Num x) = Num (of_int \<lfloor>x + 1 / 2\<rfloor>)"
| "Math_round v = v"

fun is_finite :: "jsnum \<Rightarrow> bool" where
  "is_finite (Num x) = True"
| "is_finite v = False"

text \<open>Lines 264-266: elapsed time, speed and ETA of the progress line.\<close>

definition speed_of :: "nat \<Rightarrow> int \<Rightarrow> jsnum" where
  "speed_of totalInserted elapsed =
     Math_round (js_div (Num (of_nat totalInserted)) (js_div (Num (of_int elapsed)) (Num 1000)))"

definition eta_of :: "nat \<Rightarrow> nat \<Rightarrow> jsnum \<Rightarrow> jsnum" where
  "eta_of totalRows totalInserted speed =
     (if 0 < totalInserted
      then Math_round (js_div (Num (of_nat totalRows - of_nat totalInserted)) speed)
      else Num 0)"

text \<open>
  What the program does to the outside is recorded as a trace of events: the statements
  it sends to the two databases, the delays it waits, and the lines it logs. Metadata,
  count and DDL statements carry their SQL text (the size estimate only the table name);
  a page fetch carries its \<open>LIMIT\<close> and \<open>OFFSET\<close>, a batch insert the rows of the
  batch and whether the target accepted it (the text of the multi-row \<open>INSERT\<close> and the
  conversion of the bound values are not modelled, the rows are of any type \<open>'r\<close>).
  Of the console output the trace keeps the lines that say what happened, without
  their formatting.
\<close>

datatype error = MySQLError | PostgresError

datatype 'r event =
    MySQL string
  | PageFetch nat nat
  | TableSize string
  | Postgres string
  | BatchInsert "'r list" bool
  | Sleep nat
  | FetchingRecords nat nat
  | Progress jsnum jsnum
  | MemoryWarning nat
  | ForcedGC
  | BatchFailed nat nat
  | BatchFailedPermanently nat
  | Checkpoint nat
  | DataCopyCompleted nat jsnum
  | NotCopied nat
  | CountsMatch
  | CountsDiffer
  | AllCopied
  | PartialSuccess int
  | CopyFailed error

text \<open>The constant \<open>CONFIG\<close> (lines 4-10), as a value of a record so that the
  scenarios of the specification, which use other sizes, can be stated.\<close>

record config =
  BATCH_SIZE :: nat
  STREAM_LIMIT :: nat
  MAX_RETRIES :: nat
  CHECKPOINT_INTERVAL :: nat
  MEMORY_CHECK_INTERVAL :: nat

definition CONFIG :: config where
  "CONFIG = \<lparr>BATCH_SIZE = 5000, STREAM_LIMIT = 10000, MAX_RETRIES = 3,
             CHECKPOINT_INTERVAL = 50000, MEMORY_CHECK_INTERVAL = 10\<rparr>"

text \<open>
  The answers of the outside, as oracles: whether the k-th batch \<open>INSERT\<close> sent to
  the target succeeds, whether the k-th other statement sent to the target succeeds and
  what a \<open>COUNT(*)\<close> sent as that statement answers, the source table as it is at the
  k-th page fetch (\<open>None\<close>: the fetch throws), \<open>Date.now()\<close> at its k-th call, the
  heap size in MB at the k-th \<open>getMemoryUsage()\<close>, whether \<open>global.gc\<close> exists, and
  the answers of \<open>DESCRIBE\<close> and of the source's \<open>COUNT(*)\<close> (\<open>None\<close>: the query
  throws).
\<close>

record 'r env =
  insert_ok :: "nat \<Rightarrow> bool"
  pg_ok :: "nat \<Rightarrow> bool"
  pg_count :: "nat \<Rightarrow> string"
  source :: "nat \<Rightarrow> 'r list option"
  clock :: "nat \<Rightarrow> int"
  heapUsed :: "nat \<Rightarrow> nat"
  gc_exposed :: bool
  describe_reply :: "column list option"
  count_reply :: "nat option"

text \<open>
  The state threaded through every function: the counters that index the oracles, the
  trace, and the local variables of \<open>copyTableDataStream\<close> (lines 200-205).
\<close>

record 'r state =
  insert_attempts :: nat
  pg_calls :: nat
  fetches :: nat
  ticks :: nat
  mem_samples :: nat
  trace :: "'r event list"
  totalInserted :: nat
  batchCount :: nat
  lastProgressTime :: int
  startTime :: int

definition emit :: "'r event \<Rightarrow> 'r state \<Rightarrow> 'r state" where
  "emit e s = s\<lparr>trace := trace s @ [e]\<rparr>"

definition pg_sent :: "'r event \<Rightarrow> 'r state \<Rightarrow> 'r state" where
  "pg_sent e s = s\<lparr>pg_calls := pg_calls s + 1, trace := trace s @ [e]\<rparr>"

definition insert_sent :: "'r event \<Rightarrow> 'r state \<Rightarrow> 'r state" where
  "insert_sent e s = s\<lparr>insert_attempts := insert_attempts s + 1, trace := trace s @ [e]\<rparr>"

definition tick :: "'r state \<Rightarrow> 'r state" where
  "tick s = s\<lparr>ticks := ticks s + 1\<rparr>"

section \<open>The batch transfer engine\<close>

text \<open>\<open>rows.slice(a, b)\<close> for indices that are not negative.\<close>

definition slice :: "'a list \<Rightarrow> nat \<Rightarrow> nat \<Rightarrow> 'a list" where
  "slice xs a b = take (b - a) (drop a xs)"

text \<open>Lines 260-270: the progress line, at most one in five seconds.\<close>

definition report_progress :: "'r env \<Rightarrow> nat \<Rightarrow> 'r state \<Rightarrow> 'r state" where
  "report_progress env totalRows s =
     (let currentTime = clock env (ticks s); s1 = tick s
      in if currentTime - lastProgressTime s1 > 5000
         then
           let elapsed = currentTime - startTime s1;
               speed = speed_of (totalInserted s1) elapsed;
               eta = eta_of totalRows (totalInserted s1) speed
           in (emit (Progress speed eta) s1)\<lparr>lastProgressTime := currentTime\<rparr>
         else s1)"

text \<open>
  Lines 272-285: memory monitoring. In JavaScript \<open>n % 0\<close> is \<open>NaN\<close>, which is not
  \<open>0\<close>; in HOL \<open>n mod 0 = n\<close>, so the zero interval is excluded explicitly.
\<close>

definition monitor_memory :: "config \<Rightarrow> 'r env \<Rightarrow> 'r state \<Rightarrow> 'r state" where
  "monitor_memory cfg env s =
     (if MEMORY_CHECK_INTERVAL cfg \<noteq> 0 \<and> batchCount s mod MEMORY_CHECK_INTERVAL cfg = 0
      then
        let heap = heapUsed env (mem_samples s);
            s1 = s\<lparr>mem_samples := mem_samples s + 1\<rparr>
        in if heap > 1000
           then
             let s2 = emit (MemoryWarning heap) s1
             in if heap > 2000 \<and> gc_exposed env then emit ForcedGC s2 else s2
           else s1
      else s)"

text \<open>Lines 257-285: what follows a successful \<open>postgresPool.query\<close> in the try block.\<close>

definition batch_inserted :: "config \<Rightarrow> 'r env \<Rightarrow> nat \<Rightarrow> 'r list \<Rightarrow> 'r state \<Rightarrow> 'r state" where
  "batch_inserted cfg env totalRows batch s =
     monitor_memory cfg env
       (report_progress env totalRows (s\<lparr>totalInserted := totalInserted s + length batch\<rparr>))"

text \<open>
  Lines 231-299: the retry loop of one batch, \<open>retries\<close> and \<open>batchInserted\<close> being its
  two variables. A failed attempt counts up, logs, and either gives the batch up
  (\<open>break\<close>) or waits \<open>1000 * retries\<close> milliseconds and goes round again.
\<close>

function retry_loop ::
  "config \<Rightarrow> 'r env \<Rightarrow> nat \<Rightarrow> 'r list \<Rightarrow> nat \<Rightarrow> bool \<Rightarrow> 'r state \<Rightarrow> 'r state" where
  "retry_loop cfg env totalRows batch retries batchInserted s =
     (if retries < MAX_RETRIES cfg \<and> \<not> batchInserted then
        (if insert_ok env (insert_attempts s)
         then retry_loop cfg env totalRows batch retries True
                (batch_inserted cfg env totalRows batch (insert_sent (BatchInsert batch True) s))
         else
           (if retries + 1 \<ge> MAX_RETRIES cfg
            then emit (BatchFailedPermanently (batchCount s))
                   (emit (BatchFailed (batchCount s) (retries + 1))
                      (insert_sent (BatchInsert batch False) s))
            else retry_loop cfg env totalRows batch (retries + 1) False
                   (emit (Sleep (1000 * (retries + 1)))
                      (emit (BatchFailed (batchCount s) (retries + 1))
                         (insert_sent (BatchInsert batch False) s)))))
      else s)"
  by pat_completeness auto
termination
  by (relation "measure (\<lambda>(cfg, env, totalRows, batch, retries, batchInserted, s).
        (MAX_RETRIES cfg - retries) + (if batchInserted then 0 else 1))") auto

declare retry_loop.simps [simp del]

text \<open>
  Lines 224-300: the loop over the batches of a fetched page. With a batch size of zero
  the index never moves and the loop does not end, so the function is partial: \<open>None\<close>
  is "does not return".
\<close>

partial_function (option) for_loop ::
  "config \<Rightarrow> 'r env \<Rightarrow> nat \<Rightarrow> 'r list \<Rightarrow> nat \<Rightarrow> 'r state \<Rightarrow> 'r state option" where
  "for_loop cfg env totalRows rows i s =
     (if i < length rows
      then for_loop cfg env totalRows rows (i + BATCH_SIZE cfg)
             (retry_loop cfg env totalRows (slice rows i (i + BATCH_SIZE cfg)) 0 False
                (s\<lparr>batchCount := batchCount s + 1\<rparr>))
      else Some s)"

text \<open>Lines 304-307: the checkpoint line (again \<open>n % 0\<close> is never \<open>0\<close>).\<close>

definition checkpoint :: "config \<Rightarrow> 'r state \<Rightarrow> 'r state" where
  "checkpoint cfg s =
     (if CHECKPOINT_INTERVAL cfg \<noteq> 0 \<and> totalInserted s mod CHECKPOINT_INTERVAL cfg = 0
      then emit (Checkpoint (totalInserted s)) s else s)"

text \<open>
  Lines 210-313: the loop over the pages. \<open>LIMIT l OFFSET o\<close> on the source table as
  it is at that moment returns \<open>take l (drop o table)\<close>. A fetch that throws is logged
  and thrown on; the result is \<open>Inl\<close> of the error with the state reached.
\<close>

definition page_limit :: "config \<Rightarrow> nat \<Rightarrow> nat \<Rightarrow> nat" where
  "page_limit cfg totalRows offset = min (STREAM_LIMIT cfg) (totalRows - offset)"

definition page_requested :: "config \<Rightarrow> nat \<Rightarrow> nat \<Rightarrow> 'r state \<Rightarrow> 'r state" where
  "page_requested cfg totalRows offset s =
     (let limit = page_limit cfg totalRows offset;
          s1 = emit (FetchingRecords (offset + 1) (offset + limit)) s
      in (emit (PageFetch limit offset) s1)\<lparr>fetches := fetches s1 + 1\<rparr>)"

function while_loop ::
  "config \<Rightarrow> 'r env \<Rightarrow> nat \<Rightarrow> nat \<Rightarrow> 'r state \<Rightarrow> ((error + unit) \<times> 'r state) option" where
  "while_loop cfg env totalRows offset s =
     (if offset < totalRows then
        (case source env (fetches s) of
           None \<Rightarrow> Some (Inl MySQLError, page_requested cfg totalRows offset s)
         | Some table \<Rightarrow>
             (if take (page_limit cfg totalRows offset) (drop offset table) = []
              then Some (Inr (), page_requested cfg totalRows offset s)
              else
                (case for_loop cfg env totalRows
                        (take (page_limit cfg totalRows offset) (drop offset table)) 0
                        (page_requested cfg totalRows offset s) of
                   None \<Rightarrow> None
                 | Some s' \<Rightarrow>
                     while_loop cfg env totalRows
                       (offset + length (take (page_limit cfg totalRows offset) (drop offset table)))
                       (checkpoint cfg s'))))
      else Some (Inr (), s))"
  by pat_completeness auto
termination
  by (relation "measure (\<lambda>(cfg, env, totalRows, offset, s). totalRows - offset)") auto

declare while_loop.simps [simp del]

text \<open>
  \<open>copyTableDataStream\<close> (lines 194-334): the local variables are set up (lines
  200-205), the loop runs, the summary is logged (lines 315-326) and \<open>totalInserted\<close>
  is returned; an error of the loop is logged and thrown on. The table name and the
  columns only shape the statement texts and are left out.
\<close>

definition copy_started :: "'r env \<Rightarrow> 'r state \<Rightarrow> 'r state" where
  "copy_started env s =
     (tick s)\<lparr>totalInserted := 0, batchCount := 0,
              lastProgressTime := clock env (ticks s), startTime := clock env (ticks s)\<rparr>"

definition copy_completed :: "'r env \<Rightarrow> nat \<Rightarrow> 'r state \<Rightarrow> 'r state" where
  "copy_completed env totalRows s =
     (let totalTime = clock env (ticks s) - startTime s;
          avgSpeed = speed_of (totalInserted s) totalTime;
          s1 = emit (DataCopyCompleted (totalInserted s) avgSpeed) (tick s)
      in if totalInserted s1 < totalRows
         then emit (NotCopied (totalRows - totalInserted s1)) s1 else s1)"

definition copy_returned ::
  "'r env \<Rightarrow> nat \<Rightarrow> ((error + unit) \<times> 'r state) option \<Rightarrow> ((error + nat) \<times> 'r state) option" where
  "copy_returned env totalRows r =
     (case r of
        None \<Rightarrow> None
      | Some (Inl e, s) \<Rightarrow> Some (Inl e, s)
      | Some (Inr _, s) \<Rightarrow>
          Some (Inr (totalInserted (copy_completed env totalRows s)),
                copy_completed env totalRows s))"

definition copyTableDataStream ::
  "config \<Rightarrow> 'r env \<Rightarrow> nat \<Rightarrow> 'r state \<Rightarrow> ((error + nat) \<times> 'r state) option" where
  "copyTableDataStream cfg env totalRows s =
     copy_returned env totalRows (while_loop cfg env totalRows 0 (copy_started env s))"

section \<open>The schema builder's statements\<close>

text \<open>
  \<open>createPostgreSQLTable\<close> (lines 144-191): \<open>DROP TABLE IF EXISTS\<close>, then the
  \<open>CREATE TABLE\<close>; a statement that fails is logged and thrown on.
\<close>

definition createPostgreSQLTable ::
  "'r env \<Rightarrow> string \<Rightarrow> column list \<Rightarrow> 'r state \<Rightarrow> (error + unit) \<times> 'r state" where
  "createPostgreSQLTable env tableName columns s =
     (if \<not> pg_ok env (pg_calls s)
      then (Inl PostgresError, pg_sent (Postgres (''DROP TABLE IF EXISTS '' @ tableName)) s)
      else if \<not> pg_ok env (pg_calls s + 1)
      then (Inl PostgresError,
            pg_sent (Postgres (createSQL tableName columns))
              (pg_sent (Postgres (''DROP TABLE IF EXISTS '' @ tableName)) s))
      else (Inr (),
            pg_sent (Postgres (createSQL tableName columns))
              (pg_sent (Postgres (''DROP TABLE IF EXISTS '' @ tableName)) s)))"

section \<open>The verifier\<close>

text \<open>
  \<open>parseInt(str)\<close> without a radix: leading white space is skipped, a sign is read, a
  prefix \<open>0x\<close> selects base 16, and the longest run of digits of the base is the
  value; no digit at all gives \<open>NaN\<close>, here \<open>None\<close>. Values are exact integers
  (a double is exact up to \<open>2^53\<close>).
\<close>

definition is_space :: "char \<Rightarrow> bool" where
  "is_space c = (let n = of_char c :: nat in (9 \<le> n \<and> n \<le> 13) \<or> n = 32 \<or> n = 160)"

definition digit_value :: "char \<Rightarrow> nat option" where
  "digit_value c =
     (let n = of_char c :: nat
      in if 48 \<le> n \<and> n \<le> 57 then Some (n - 48)
         else if 97 \<le> n \<and> n \<le> 122 then Some (n - 87)
         else if 65 \<le> n \<and> n \<le> 90 then Some (n - 55)
         else None)"

definition in_radix :: "nat \<Rightarrow> char \<Rightarrow> bool" where
  "in_radix radix c = (case digit_value c of Some v \<Rightarrow> v < radix | None \<Rightarrow> False)"

definition digits_value :: "nat \<Rightarrow> string \<Rightarrow> nat" where
  "digits_value radix ds =
     foldl (\<lambda>acc c. case digit_value c of Some v \<Rightarrow> acc * radix + v | None \<Rightarrow> acc) 0 ds"

definition parseInt :: "string \<Rightarrow> int option" where
  "parseInt str =
     (let s = dropWhile is_space str;
          negative = startsWith s ''-'';
          s1 = (if startsWith s ''-'' \<or> startsWith s ''+'' then drop 1 s else s);
          hex = (startsWith s1 ''0x'' \<or> startsWith s1 ''0X'');
          radix = (if hex then 16 else 10);
          s2 = (if hex then drop 2 s1 else s1);
          ds = takeWhile (in_radix radix) s2
      in if ds = [] then None
         else Some ((if negative then - 1 else 1) * int (digits_value radix ds)))"


section \<open>The orchestrator\<close>

text \<open>
  \<open>copyTable\<close> (lines 387-508), phase by phase; each phase passes on either the error
  that was thrown or the values the later phases use. The durations that are only
  printed are left out, the calls of \<open>Date.now()\<close> and \<open>getMemoryUsage()\<close> that
  measure them are counted. The result is the exit code of the process:
  \<open>process.exit(1)\<close> in the catch block, \<open>process.exit(0)\<close> in the finally block.
\<close>

definition tableName :: string where
  "tableName = ''users''"

definition fresh :: "'r state" where
  "fresh = \<lparr>insert_attempts = 0, pg_calls = 0, fetches = 0, ticks = 0, mem_samples = 0,
            trace = [], totalInserted = 0, batchCount = 0, lastProgressTime = 0,
            startTime = 0\<rparr>"

definition sampled :: "'r state \<Rightarrow> 'r state" where
  "sampled s = s\<lparr>mem_samples := mem_samples s + 1\<rparr>"

text \<open>Step 1 (lines 389-418): the three metadata queries, sent together.\<close>

definition analysed :: "'r env \<Rightarrow> (error + column list \<times> nat) \<times> 'r state" where
  "analysed env =
     (case describe_reply env of
        None \<Rightarrow>
          (Inl MySQLError,
           emit (TableSize tableName)
             (emit (MySQL (''SELECT COUNT(*) as total FROM '' @ tableName))
                (emit (MySQL (''DESCRIBE '' @ tableName)) (tick (sampled (tick fresh))))))
      | Some columns \<Rightarrow>
          (case count_reply env of
             None \<Rightarrow>
               (Inl MySQLError,
                emit (TableSize tableName)
                  (emit (MySQL (''SELECT COUNT(*) as total FROM '' @ tableName))
                     (emit (MySQL (''DESCRIBE '' @ tableName)) (tick (sampled (tick fresh))))))
           | Some totalRows \<Rightarrow>
               (Inr (columns, totalRows),
                tick (emit (TableSize tableName)
                  (emit (MySQL (''SELECT COUNT(*) as total FROM '' @ tableName))
                     (emit (MySQL (''DESCRIBE '' @ tableName)) (tick (sampled (tick fresh)))))))))"

text \<open>Step 2 (lines 431-436).\<close>

definition table_created ::
  "'r env \<Rightarrow> (error + column list \<times> nat) \<times> 'r state \<Rightarrow> (error + nat) \<times> 'r state" where
  "table_created env r =
     (case r of
        (Inl e, s) \<Rightarrow> (Inl e, s)
      | (Inr (columns, totalRows), s) \<Rightarrow>
          (case createPostgreSQLTable env tableName columns (tick s) of
             (Inl e, s') \<Rightarrow> (Inl e, s')
           | (Inr _, s') \<Rightarrow> (Inr totalRows, tick s')))"

text \<open>Step 3 (lines 438-443).\<close>

definition data_copied ::
  "config \<Rightarrow> 'r env \<Rightarrow> (error + nat) \<times> 'r state \<Rightarrow> ((error + nat \<times> nat) \<times> 'r state) option" where
  "data_copied cfg env r =
     (case r of
        (Inl e, s) \<Rightarrow> Some (Inl e, s)
      | (Inr totalRows, s) \<Rightarrow>
          (case copyTableDataStream cfg env totalRows (tick s) of
             None \<Rightarrow> None
           | Some (Inl e, s') \<Rightarrow> Some (Inl e, s')
           | Some (Inr copiedRows, s') \<Rightarrow> Some (Inr (totalRows, copiedRows), tick s')))"

text \<open>Step 4 (lines 445-463): the count of the target against \<open>totalRows\<close>.\<close>

definition counts_checked ::
  "'r env \<Rightarrow> ((error + nat \<times> nat) \<times> 'r state) option \<Rightarrow> ((error + nat \<times> nat) \<times> 'r state) option" where
  "counts_checked env r =
     (case r of
        None \<Rightarrow> None
      | Some (Inl e, s) \<Rightarrow> Some (Inl e, s)
      | Some (Inr (totalRows, copiedRows), s) \<Rightarrow>
          (if \<not> pg_ok env (pg_calls s)
           then Some (Inl PostgresError,
                      pg_sent (Postgres (''SELECT COUNT(*) as count FROM '' @ tableName)) (tick s))
           else Some (Inr (totalRows, copiedRows),
                      tick (emit (if Some (int totalRows) = parseInt (pg_count env (pg_calls s))
                                  then CountsMatch else CountsDiffer)
                        (pg_sent (Postgres (''SELECT COUNT(*) as count FROM '' @ tableName))
                           (tick s))))))"

text \<open>The final summary (lines 465-490) and the catch block (lines 492-504).\<close>

definition reported ::
  "((error + nat \<times> nat) \<times> 'r state) option \<Rightarrow> (nat \<times> 'r state) option" where
  "reported r =
     (case r of
        None \<Rightarrow> None
      | Some (Inl e, s) \<Rightarrow> Some (1, emit (CopyFailed e) (tick s))
      | Some (Inr (totalRows, copiedRows), s) \<Rightarrow>
          Some (0, emit (if copiedRows = totalRows then AllCopied
                         else PartialSuccess (int totalRows - int copiedRows))
                     (sampled (tick s))))"

definition copyTable :: "config \<Rightarrow> 'r env \<Rightarrow> (nat \<times> 'r state) option" where
  "copyTable cfg env =
     reported (counts_checked env (data_copied cfg env (table_created env (analysed env))))"

section \<open>Reading a trace\<close>

text \<open>
  What a trace says about a run: the page fetches, the batches the target accepted, the
  batches given up, the delays waited, and the number of rows in the accepted batches.
\<close>

fun fetch_of :: "'r event \<Rightarrow> (nat \<times> nat) list" where
  "fetch_of (PageFetch l off) = [(l, off)]"
| "fetch_of e = []"

fun accepted_of :: "'r event \<Rightarrow> 'r list list" where
  "accepted_of (BatchInsert b True) = [b]"
| "accepted_of e = []"

fun abandoned_of :: "'r event \<Rightarrow> nat list" where
  "abandoned_of (BatchFailedPermanently n) = [n]"
| "abandoned_of e = []"

fun delay_of :: "'r event \<Rightarrow> nat list" where
  "delay_of (Sleep ms) = [ms]"
| "delay_of e = []"

definition page_fetches :: "'r event list \<Rightarrow> (nat \<times> nat) list" where
  "page_fetches t = concat (map fetch_of t)"

definition accepted_batches :: "'r event list \<Rightarrow> 'r list list" where
  "accepted_batches t = concat (map accepted_of t)"

definition abandoned_batches :: "'r event list \<Rightarrow> nat list" where
  "abandoned_batches t = concat (map abandoned_of t)"

definition delays :: "'r event list \<Rightarrow> nat list" where
  "delays t = concat (map delay_of t)"

definition rows_accepted :: "'r event list \<Rightarrow> nat" where
  "rows_accepted t = sum_list (map length (accepted_batches t))"

text \<open>
  The specification's account of the pagination, to compare the loops with: the windows
  \<open>(limit, offset)\<close> of width \<open>pageSize\<close> up to \<open>totalRows\<close>, and the sizes of the
  consecutive batches of width \<open>batchSize\<close> that a page of \<open>n\<close> rows is sliced into
  (the last one may be smaller).
\<close>

function windows :: "nat \<Rightarrow> nat \<Rightarrow> nat \<Rightarrow> (nat \<times> nat) list" where
  "windows pageSize totalRows offset =
     (if offset < totalRows \<and> 0 < pageSize
      then (min pageSize (totalRows - offset), offset)
             # windows pageSize totalRows (offset + min pageSize (totalRows - offset))
      else [])"
  by pat_completeness auto
termination
  by (relation "measure (\<lambda>(pageSize, totalRows, offset). totalRows - offset)") auto

declare windows.simps [simp del]

function batch_sizes :: "nat \<Rightarrow> nat \<Rightarrow> nat list" where
  "batch_sizes batchSize n =
     (if 0 < n \<and> 0 < batchSize
      then min batchSize n # batch_sizes batchSize (n - min batchSize n)
      else [])"
  by pat_completeness auto
termination
  by (relation "measure (\<lambda>(batchSize, n). n)") auto

declare batch_sizes.simps [simp del]

definition table_batch_sizes :: "nat \<Rightarrow> nat \<Rightarrow> nat \<Rightarrow> nat \<Rightarrow> nat list" where
  "table_batch_sizes batchSize pageSize totalRows offset =
     concat (map (\<lambda>(limit, off). batch_sizes batchSize limit)
               (windows pageSize totalRows offset))"


section \<open>Example runs\<close>

text \<open>
  The configuration of the specification's scenario (batches of 5, pages of 10, three
  attempts), a table of twelve rows, and three worlds: one where the table stands still
  and the target accepts everything, one where the target refuses every insert, and one
  where the source has gained eight rows by the second page fetch.
\<close>

definition scenario_config :: config where
  "scenario_config = \<lparr>BATCH_SIZE = 5, STREAM_LIMIT = 10, MAX_RETRIES = 3,
                       CHECKPOINT_INTERVAL = 50000, MEMORY_CHECK_INTERVAL = 10\<rparr>"

definition twelve_rows :: "nat list" where
  "twelve_rows = [1, 2, 3, 4, 5, 6, 7, 8, 9, 10, 11, 12]"

definition steady :: "'r list \<Rightarrow> 'r env" where
  "steady table =
     \<lparr>insert_ok = (\<lambda>k. True), pg_ok = (\<lambda>k. True),
      pg_count = (\<lambda>k. show_nat (length table)), source = (\<lambda>k. Some table),
      clock = (\<lambda>k. 0), heapUsed = (\<lambda>k. 0), gc_exposed = False,
      describe_reply = Some [], count_reply = Some (length table)\<rparr>"

definition refusing :: "'r list \<Rightarrow> 'r env" where
  "refusing table = (steady table)\<lparr>insert_ok := (\<lambda>k. False), pg_count := (\<lambda>k. ''0'')\<rparr>"

definition growing :: "nat env" where
  "growing =
     (steady twelve_rows)
       \<lparr>source := (\<lambda>k. if k = 0 then Some twelve_rows
                        else Some (twelve_rows @ [13, 14, 15, 16, 17, 18, 19, 20]))\<rparr>"


section \<open>Properties of the type mapper\<close>

lemma digits_then_digits:
  "digits_then s stop = Some (ds, r) \<Longrightarrow> ds \<noteq> [] \<and> (\<forall>c\<in>set ds. is_digit c)"
  by (auto simp: digits_then_def Let_def split: if_splits dest: set_takeWhileD)

lemma digits_then_rebuild:
  assumes "ds \<noteq> []" and "\<forall>c\<in>set ds. is_digit c" and "\<not> is_digit c"
  shows "digits_then (ds @ c # r) [c] = Some (ds, r)"
proof -
  have "takeWhile is_digit (ds @ c # r) = ds"
    using assms by (simp add: takeWhile_append2)
  moreover have "dropWhile is_digit (ds @ c # r) = c # r"
    using assms by (simp add: dropWhile_append2)
  ultimately show ?thesis
    using assms by (simp add: digits_then_def)
qed

lemma match_varchar_digits:
  "match_varchar s = Some n \<Longrightarrow> n \<noteq> [] \<and> (\<forall>c\<in>set n. is_digit c)"
proof (induction s)
  case Nil
  then show ?case by simp
next
  case (Cons c cs)
  show ?case
  proof (cases "varchar_at (c # cs)")
    case None
    with Cons show ?thesis by simp
  next
    case (Some g)
    with Cons.prems have "g = n" by simp
    with Some obtain r where "digits_then (drop 8 (c # cs)) '')'' = Some (n, r)"
      by (auto simp: varchar_at_def split: if_splits)
    then show ?thesis by (rule digits_then_digits)
  qed
qed

lemma match_decimal_digits:
  "match_decimal s = Some (p, q) \<Longrightarrow>
     (p \<noteq> [] \<and> (\<forall>c\<in>set p. is_digit c)) \<and> (q \<noteq> [] \<and> (\<forall>c\<in>set q. is_digit c))"
proof (induction s)
  case Nil
  then show ?case by simp
next
  case (Cons c cs)
  show ?case
  proof (cases "decimal_at (c # cs)")
    case None
    with Cons show ?thesis by simp
  next
    case (Some g)
    with Cons.prems have g: "g = (p, q)" by simp
    from Some g obtain r r' where
      "digits_then (drop 8 (c # cs)) '','' = Some (p, r)" and "digits_then r '')'' = Some (q, r')"
      by (auto simp: decimal_at_def split: if_splits option.splits)
    then show ?thesis using digits_then_digits by blast
  qed
qed

lemma valid_varchar:
  assumes "n \<noteq> []" and "\<forall>c\<in>set n. is_digit c"
  shows "valid_target_type (''VARCHAR('' @ n @ '')'')"
proof -
  have "digits_then (n @ CHR '')'' # []) '')'' = Some (n, [])"
    using assms by (intro digits_then_rebuild) (simp_all add: is_digit_def)
  then show ?thesis by (simp add: valid_target_type_def)
qed

lemma valid_decimal:
  assumes "p \<noteq> []" and "\<forall>c\<in>set p. is_digit c" and "q \<noteq> []" and "\<forall>c\<in>set q. is_digit c"
  shows "valid_target_type (''DECIMAL('' @ p @ '','' @ q @ '')'')"
proof -
  have "digits_then (p @ CHR '','' # (q @ '')'')) '','' = Some (p, q @ '')'')"
    using assms by (intro digits_then_rebuild) (simp_all add: is_digit_def)
  moreover have "digits_then (q @ CHR '')'' # []) '')'' = Some (q, [])"
    using assms by (intro digits_then_rebuild) (simp_all add: is_digit_def)
  ultimately show ?thesis by (simp add: valid_target_type_def)
qed

lemma valid_fixed_names:
  "valid_target_type ''INTEGER''" "valid_target_type ''BIGINT''"
  "valid_target_type ''SMALLINT''" "valid_target_type ''BOOLEAN''"
  "valid_target_type ''TEXT''" "valid_target_type ''DECIMAL''"
  "valid_target_type ''REAL''" "valid_target_type ''DOUBLE PRECISION''"
  "valid_target_type ''TIMESTAMP''" "valid_target_type ''DATE''"
  "valid_target_type ''TIME''" "valid_target_type ''JSON''"
  by (simp_all add: valid_target_type_def fixed_target_types_def)

lemma valid_varchar_branch:
  "valid_target_type
     (case match_varchar s of Some n \<Rightarrow> ''VARCHAR('' @ n @ '')'' | None \<Rightarrow> ''VARCHAR(255)'')"
proof (cases "match_varchar s")
  case None
  then show ?thesis
    using valid_varchar [of "''255''"] by (simp add: is_digit_def)
next
  case (Some n)
  from match_varchar_digits [OF Some] have "valid_target_type (''VARCHAR('' @ n @ '')'')"
    by (intro valid_varchar) simp_all
  with Some show ?thesis by simp
qed

lemma valid_decimal_branch:
  "valid_target_type
     (case match_decimal s of
        Some (p, q) \<Rightarrow> ''DECIMAL('' @ p @ '','' @ q @ '')'' | None \<Rightarrow> ''DECIMAL'')"
proof (cases "match_decimal s")
  case None
  then show ?thesis by (simp add: valid_fixed_names)
next
  case (Some g)
  obtain p q where g: "g = (p, q)" by (cases g)
  from match_decimal_digits [of s p q] Some g
  have "valid_target_type (''DECIMAL('' @ p @ '','' @ q @ '')'')"
    by (intro valid_decimal) simp_all
  with Some g show ?thesis by simp
qed

lemma valid_enum_branch: "valid_target_type ''VARCHAR(50)''"
  using valid_varchar [of "''50''"] by (simp add: is_digit_def)

lemma valid_target_if:
  "valid_target_type a \<Longrightarrow> valid_target_type b \<Longrightarrow> valid_target_type (if c then a else b)"
  by simp

text \<open>
  C7. For every source type string the mapper returns a well-formed target type (it has
  no failing path: a failed pattern match is replaced by a default), and a type that
  contains none of the patterns of the table is mapped to \<open>TEXT\<close>.
\<close>

theorem convertDataType_total:
  "valid_target_type (convertDataType t) \<and>
   ((\<forall>p\<in>set type_patterns. \<not> str_includes (toLowerCase t) p) \<longrightarrow> convertDataType t = ''TEXT'')"
proof
  show "valid_target_type (convertDataType t)"
    unfolding convertDataType_def Let_def
    by (intro valid_target_if valid_fixed_names valid_varchar_branch valid_decimal_branch
        valid_enum_branch)
next
  show "(\<forall>p\<in>set type_patterns. \<not> str_includes (toLowerCase t) p) \<longrightarrow> convertDataType t = ''TEXT''"
    by (simp add: type_patterns_def convertDataType_def)
qed

theorem convertDataType_total_witness:
  "list_all (\<lambda>p. \<not> str_includes (toLowerCase ''geometry'') p) type_patterns \<and>
   valid_target_type (convertDataType ''geometry'') \<and>
   convertDataType ''geometry'' = ''TEXT''"
proof -
  have h: "list_all (\<lambda>p. \<not> str_includes (toLowerCase ''geometry'') p) type_patterns"
    by (simp add: type_patterns_def toLowerCase_def lower_char_def)
  then have "\<forall>p\<in>set type_patterns. \<not> str_includes (toLowerCase ''geometry'') p"
    by (simp only: list_all_iff)
  with h convertDataType_total [of "''geometry''"] show ?thesis
    by blast
qed

lemma startsWith_iff: "startsWith s p \<longleftrightarrow> (\<exists>r. s = p @ r)"
  by (induction s p rule: startsWith.induct) auto

lemma str_includes_iff: "str_includes s p \<longleftrightarrow> (\<exists>a b. s = a @ p @ b)"
proof (induction s)
  case Nil
  then show ?case by (auto simp: startsWith_iff)
next
  case (Cons c cs)
  show ?case
  proof
    assume "str_includes (c # cs) p"
    then consider "startsWith (c # cs) p" | "str_includes cs p" by auto
    then show "\<exists>a b. c # cs = a @ p @ b"
    proof cases
      case 1
      then obtain r where "c # cs = p @ r" by (auto simp: startsWith_iff)
      then have "c # cs = [] @ p @ r" by simp
      then show ?thesis by blast
    next
      case 2
      with Cons obtain a b where "cs = a @ p @ b" by blast
      then have "c # cs = (c # a) @ p @ b" by simp
      then show ?thesis by blast
    qed
  next
    assume "\<exists>a b. c # cs = a @ p @ b"
    then obtain a b where ab: "c # cs = a @ p @ b" by blast
    show "str_includes (c # cs) p"
    proof (cases a)
      case Nil
      with ab have "startsWith (c # cs) p" by (auto simp: startsWith_iff)
      then show ?thesis by simp
    next
      case (Cons x a')
      with ab have "cs = a' @ p @ b" by simp
      with Cons.IH show ?thesis by auto
    qed
  qed
qed

lemma tinyint1_shadowed: "str_includes s ''tinyint(1)'' \<Longrightarrow> str_includes s ''int(''"
proof -
  assume "str_includes s ''tinyint(1)''"
  then obtain a b where "s = a @ ''tinyint(1)'' @ b" by (auto simp: str_includes_iff)
  then have "s = (a @ ''tiny'') @ ''int('' @ (''1)'' @ b)" by simp
  then show ?thesis unfolding str_includes_iff by blast
qed

lemma never_boolean_varchar: "(case match_varchar s of Some n \<Rightarrow> ''VARCHAR('' @ n @ '')'' | None \<Rightarrow> ''VARCHAR(255)'') \<noteq> ''BOOLEAN''"
  by (simp split: option.split)

lemma never_boolean_decimal: "(case match_decimal s of
        Some (p, q) \<Rightarrow> ''DECIMAL('' @ p @ '','' @ q @ '')'' | None \<Rightarrow> ''DECIMAL'') \<noteq> ''BOOLEAN''"
  by (simp split: option.split)

lemma convertDataType_never_boolean: "convertDataType t \<noteq> ''BOOLEAN''"
  using tinyint1_shadowed [of "toLowerCase t"] never_boolean_varchar never_boolean_decimal
  unfolding convertDataType_def Let_def
  by simp

text \<open>
  C1. \<open>varchar(120)\<close> keeps its length and plain \<open>tinyint\<close> becomes \<open>INTEGER\<close>;
  \<open>tinyint(1)\<close> becomes \<open>INTEGER\<close> as well, not \<open>BOOLEAN\<close>: the test for
  \<open>int(\<close> comes first and every string that contains \<open>tinyint(1)\<close> contains
  \<open>int(\<close>, so that no input at all is mapped to \<open>BOOLEAN\<close>.
\<close>

theorem convertDataType_scenario:
  "convertDataType ''varchar(120)'' = ''VARCHAR(120)'' \<and>
   convertDataType ''tinyint(1)'' = ''INTEGER'' \<and>
   convertDataType ''tinyint'' = ''INTEGER'' \<and>
   (\<forall>t. convertDataType t \<noteq> ''BOOLEAN'')"
proof -
  have "convertDataType ''varchar(120)'' = ''VARCHAR(120)''"
    by (simp add: convertDataType_def toLowerCase_def lower_char_def varchar_at_def
        digits_then_def is_digit_def)
  moreover have "convertDataType ''tinyint(1)'' = ''INTEGER''"
    by (simp add: convertDataType_def toLowerCase_def lower_char_def)
  moreover have "convertDataType ''tinyint'' = ''INTEGER''"
    by (simp add: convertDataType_def toLowerCase_def lower_char_def)
  ultimately show ?thesis using convertDataType_never_boolean by blast
qed

section \<open>Properties of the default conversion\<close>

lemma of_char_lower_char:
  "(of_char (lower_char c) :: nat) =
     (if (65 \<le> (of_char c :: nat) \<and> (of_char c :: nat) \<le> 90)
         \<or> (192 \<le> (of_char c :: nat) \<and> (of_char c :: nat) \<le> 222 \<and> (of_char c :: nat) \<noteq> 215)
      then of_char c + 32 else of_char c)"
  by (simp add: lower_char_def Let_def)

lemma lower_char_digit:
  assumes "(of_char d :: nat) < 65"
  shows "lower_char c = d \<longleftrightarrow> c = d"
proof
  assume "c = d"
  with assms show "lower_char c = d" by (simp add: lower_char_def)
next
  assume h: "lower_char c = d"
  define n where "n = (of_char c :: nat)"
  define m where "m = (of_char d :: nat)"
  from h have "(of_char (lower_char c) :: nat) = m" by (simp add: m_def)
  then have "(if (65 \<le> n \<and> n \<le> 90) \<or> (192 \<le> n \<and> n \<le> 222 \<and> n \<noteq> 215)
              then n + 32 else n) = m"
    unfolding of_char_lower_char n_def .
  moreover have "m < 65" using assms by (simp add: m_def)
  ultimately have "n = m" by (simp split: if_splits)
  then have "(of_char c :: nat) = of_char d" by (simp add: n_def m_def)
  then show "c = d" by (simp only: of_char_eq_iff)
qed

lemma toLowerCase_digit:
  assumes "(of_char x :: nat) < 65"
  shows "toLowerCase d = [x] \<longleftrightarrow> d = [x]"
  using lower_char_digit [OF assms] by (cases d) (auto simp: toLowerCase_def)

text \<open>
  C6. As the code has it: an absent default (or the string \<open>NULL\<close>) stays absent; a
  default that contains \<open>current_timestamp\<close> or \<open>now()\<close>, in any case, becomes
  \<open>CURRENT_TIMESTAMP\<close>; the strings \<open>0\<close> and \<open>1\<close> pass through unquoted; every
  other string, a numeric literal such as \<open>42\<close> included, is wrapped in single
  quotes.
\<close>

theorem convertDefaultValue_cases:
  "convertDefaultValue JNull t = JNull \<and>
   convertDefaultValue (JStr ''NULL'') t = JNull \<and>
   (d \<noteq> ''NULL'' \<and>
    (str_includes (toLowerCase d) ''current_timestamp'' \<or> str_includes (toLowerCase d) ''now()'')
      \<longrightarrow> convertDefaultValue (JStr d) t = JStr ''CURRENT_TIMESTAMP'') \<and>
   convertDefaultValue (JStr ''0'') t = JStr ''0'' \<and>
   convertDefaultValue (JStr ''1'') t = JStr ''1'' \<and>
   (d \<noteq> ''NULL'' \<and> d \<noteq> ''0'' \<and> d \<noteq> ''1'' \<and>
    \<not> str_includes (toLowerCase d) ''current_timestamp'' \<and>
    \<not> str_includes (toLowerCase d) ''now()''
      \<longrightarrow> convertDefaultValue (JStr d) t = JStr (quoted d))"
proof -
  have low0: "toLowerCase d = ''0'' \<longleftrightarrow> d = ''0''" for d
    by (rule toLowerCase_digit) simp
  have low1: "toLowerCase d = ''1'' \<longleftrightarrow> d = ''1''" for d
    by (rule toLowerCase_digit) simp
  have zero: "convertDefaultValue (JStr ''0'') t = JStr ''0''"
    by (simp add: convertDefaultValue_def toLowerCase_def lower_char_def)
  have one: "convertDefaultValue (JStr ''1'') t = JStr ''1''"
    by (simp add: convertDefaultValue_def toLowerCase_def lower_char_def)
  have absent: "convertDefaultValue JNull t = JNull"
    by (simp add: convertDefaultValue_def)
  have null: "convertDefaultValue (JStr ''NULL'') t = JNull"
    by (simp add: convertDefaultValue_def)
  have time: "d \<noteq> ''NULL'' \<and>
    (str_includes (toLowerCase d) ''current_timestamp'' \<or> str_includes (toLowerCase d) ''now()'')
      \<longrightarrow> convertDefaultValue (JStr d) t = JStr ''CURRENT_TIMESTAMP''"
    by (simp add: convertDefaultValue_def)
  have other: "d \<noteq> ''NULL'' \<and> d \<noteq> ''0'' \<and> d \<noteq> ''1'' \<and>
    \<not> str_includes (toLowerCase d) ''current_timestamp'' \<and>
    \<not> str_includes (toLowerCase d) ''now()''
      \<longrightarrow> convertDefaultValue (JStr d) t = JStr (quoted d)"
    by (simp add: convertDefaultValue_def low0 low1)
  show ?thesis
    by (intro conjI absent null time zero one other)
qed

theorem convertDefaultValue_cases_witness:
  "convertDefaultValue (JStr ''Now()'') ''datetime'' = JStr ''CURRENT_TIMESTAMP'' \<and>
   convertDefaultValue (JStr ''42'') ''int(11)'' = JStr (quoted ''42'') \<and>
   convertDefaultValue (JStr ''active'') ''varchar(20)'' = JStr (quoted ''active'')"
proof -
  have a: "''Now()'' \<noteq> ''NULL'' \<and>
      (str_includes (toLowerCase ''Now()'') ''current_timestamp''
       \<or> str_includes (toLowerCase ''Now()'') ''now()'')"
    by (simp add: toLowerCase_def lower_char_def char_of_eq_iff)
  have b: "''42'' \<noteq> ''NULL'' \<and> ''42'' \<noteq> ''0'' \<and> ''42'' \<noteq> ''1'' \<and>
      \<not> str_includes (toLowerCase ''42'') ''current_timestamp'' \<and>
      \<not> str_includes (toLowerCase ''42'') ''now()''"
    by (simp add: toLowerCase_def lower_char_def)
  have c: "''active'' \<noteq> ''NULL'' \<and> ''active'' \<noteq> ''0'' \<and> ''active'' \<noteq> ''1'' \<and>
      \<not> str_includes (toLowerCase ''active'') ''current_timestamp'' \<and>
      \<not> str_includes (toLowerCase ''active'') ''now()''"
    by (simp add: toLowerCase_def lower_char_def)
  note time = convertDefaultValue_cases [THEN conjunct2, THEN conjunct2, THEN conjunct1, THEN mp]
  note other = convertDefaultValue_cases [THEN conjunct2, THEN conjunct2, THEN conjunct2,
      THEN conjunct2, THEN conjunct2, THEN mp]
  show ?thesis
    by (intro conjI time [OF a] other [OF b] other [OF c])
qed

text \<open>
  C6. As it is stated it fails: the numeric literal \<open>42\<close> does not pass through
  unquoted.
\<close>

theorem convertDefaultValue_numeric_counterexample:
  "convertDefaultValue (JStr ''42'') ''int(11)'' = JStr [CHR 0x27, CHR ''4'', CHR ''2'', CHR 0x27] \<and>
   convertDefaultValue (JStr ''42'') ''int(11)'' \<noteq> JStr ''42''"
  by (simp add: convertDefaultValue_def toLowerCase_def lower_char_def quoted_def)

section \<open>Properties of the schema builder\<close>

text \<open>
  C5. At a table with a composite primary key, the statement names the first key column
  only, and the second key column has lost its \<open>NOT NULL\<close> as if it were named.
\<close>

theorem createSQL_composite_key:
  "createSQL ''order_items''
      [\<lparr>col_Field = ''order_id'', col_Type = ''bigint'', col_Null = ''NO'', col_Key = ''PRI'',
         col_Default = JNull\<rparr>,
       \<lparr>col_Field = ''item_id'', col_Type = ''bigint'', col_Null = ''NO'', col_Key = ''PRI'',
         col_Default = JNull\<rparr>,
       \<lparr>col_Field = ''qty'', col_Type = ''smallint'', col_Null = ''NO'', col_Key = [],
         col_Default = JStr ''1''\<rparr>]
    = ''CREATE TABLE order_items ('' @ newline @
      ''    order_id BIGINT,'' @ newline @
      ''    item_id BIGINT,'' @ newline @
      ''    qty SMALLINT NOT NULL DEFAULT 1,'' @ newline @
      ''    PRIMARY KEY (order_id)'' @ newline @
      '')''"
  by (simp add: createSQL_def columnDefinition_def convertDataType_def toLowerCase_def
      lower_char_def convertDefaultValue_def)

section \<open>Properties of the progress line\<close>

lemmas run_defs = retry_loop.simps for_loop.simps while_loop.simps slice_def page_requested_def page_limit_def checkpoint_def
  emit_def tick_def insert_sent_def pg_sent_def batch_inserted_def report_progress_def
  monitor_memory_def speed_of_def eta_of_def Let_def copyTableDataStream_def
  copy_returned_def copy_completed_def copy_started_def fresh_def

text \<open>
  C8. At a table of two rows whose only batch is accepted six seconds after the start,
  the speed rounds to zero, the guard of the ETA tests \<open>totalInserted\<close> and not the
  speed, and the ETA that is logged is \<open>NaN\<close>; with a row still to copy it is
  \<open>Infinity\<close>.
\<close>

theorem eta_not_finite:
  "speed_of 2 6000 = Num 0 \<and>
   eta_of 2 2 (speed_of 2 6000) = NaN \<and>
   eta_of 2 1 (speed_of 1 6000) = Infinity \<and>
   \<not> is_finite (eta_of 2 2 (speed_of 2 6000)) \<and>
   \<not> is_finite (eta_of 2 1 (speed_of 1 6000)) \<and>
   map_option (trace \<circ> snd)
     (copyTableDataStream CONFIG
        \<lparr>insert_ok = (\<lambda>k. True), pg_ok = (\<lambda>k. True), pg_count = (\<lambda>k. ''2''),
          source = (\<lambda>k. Some [''row 1'', ''row 2'']), clock = (\<lambda>k. int k * 6000),
          heapUsed = (\<lambda>k. 100), gc_exposed = False, describe_reply = None,
          count_reply = Some 2\<rparr>
        2 fresh)
     = Some [FetchingRecords 1 2, PageFetch 2 0, BatchInsert [''row 1'', ''row 2''] True,
             Progress (Num 0) NaN, DataCopyCompleted 2 (Num 0)]"
proof (intro conjI)
  show "speed_of 2 6000 = Num 0" by (simp add: speed_of_def)
  show "eta_of 2 2 (speed_of 2 6000) = NaN" by (simp add: speed_of_def eta_of_def)
  show "eta_of 2 1 (speed_of 1 6000) = Infinity" by (simp add: speed_of_def eta_of_def)
  show "\<not> is_finite (eta_of 2 2 (speed_of 2 6000))" by (simp add: speed_of_def eta_of_def)
  show "\<not> is_finite (eta_of 2 1 (speed_of 1 6000))" by (simp add: speed_of_def eta_of_def)
  show "map_option (trace \<circ> snd)
     (copyTableDataStream CONFIG
        \<lparr>insert_ok = (\<lambda>k. True), pg_ok = (\<lambda>k. True), pg_count = (\<lambda>k. ''2''),
          source = (\<lambda>k. Some [''row 1'', ''row 2'']), clock = (\<lambda>k. int k * 6000),
          heapUsed = (\<lambda>k. 100), gc_exposed = False, describe_reply = None,
          count_reply = Some 2\<rparr>
        2 fresh)
     = Some [FetchingRecords 1 2, PageFetch 2 0, BatchInsert [''row 1'', ''row 2''] True,
             Progress (Num 0) NaN, DataCopyCompleted 2 (Num 0)]"
    by (simp add: CONFIG_def run_defs)
qed

section \<open>Properties of the verifier\<close>



lemma digit_value_digit:
  "48 \<le> (of_char c :: nat) \<Longrightarrow> (of_char c :: nat) \<le> 57 \<Longrightarrow> digit_value c = Some (of_char c - 48)"
  by (simp add: digit_value_def)






section \<open>How the steps of the transfer change the state\<close>

lemma projections_Nil [simp]:
  "page_fetches [] = []" "accepted_batches [] = []" "abandoned_batches [] = []"
  "delays [] = []" "rows_accepted [] = 0"
  by (simp_all add: page_fetches_def accepted_batches_def abandoned_batches_def delays_def
      rows_accepted_def)

lemma projections_append [simp]:
  "page_fetches (t @ u) = page_fetches t @ page_fetches u"
  "accepted_batches (t @ u) = accepted_batches t @ accepted_batches u"
  "abandoned_batches (t @ u) = abandoned_batches t @ abandoned_batches u"
  "delays (t @ u) = delays t @ delays u"
  "rows_accepted (t @ u) = rows_accepted t + rows_accepted u"
  by (simp_all add: page_fetches_def accepted_batches_def abandoned_batches_def delays_def
      rows_accepted_def)

lemma projections_Cons [simp]:
  "page_fetches (e # t) = fetch_of e @ page_fetches t"
  "accepted_batches (e # t) = accepted_of e @ accepted_batches t"
  "abandoned_batches (e # t) = abandoned_of e @ abandoned_batches t"
  "delays (e # t) = delay_of e @ delays t"
  "rows_accepted (e # t) = sum_list (map length (accepted_of e)) + rows_accepted t"
  by (simp_all add: page_fetches_def accepted_batches_def abandoned_batches_def delays_def
      rows_accepted_def)

lemma emit_fields [simp]:
  "trace (emit e s) = trace s @ [e]"
  "totalInserted (emit e s) = totalInserted s"
  "batchCount (emit e s) = batchCount s"
  "fetches (emit e s) = fetches s"
  "insert_attempts (emit e s) = insert_attempts s"
  "pg_calls (emit e s) = pg_calls s"
  "ticks (emit e s) = ticks s"
  "startTime (emit e s) = startTime s"
  by (simp_all add: emit_def)

lemma insert_sent_fields [simp]:
  "trace (insert_sent e s) = trace s @ [e]"
  "totalInserted (insert_sent e s) = totalInserted s"
  "batchCount (insert_sent e s) = batchCount s"
  "fetches (insert_sent e s) = fetches s"
  "insert_attempts (insert_sent e s) = insert_attempts s + 1"
  "pg_calls (insert_sent e s) = pg_calls s"
  "startTime (insert_sent e s) = startTime s"
  by (simp_all add: insert_sent_def)

lemma tick_fields [simp]:
  "trace (tick s) = trace s"
  "totalInserted (tick s) = totalInserted s"
  "batchCount (tick s) = batchCount s"
  "fetches (tick s) = fetches s"
  "insert_attempts (tick s) = insert_attempts s"
  "pg_calls (tick s) = pg_calls s"
  "startTime (tick s) = startTime s"
  by (simp_all add: tick_def)

text \<open>The progress line, the memory check and the checkpoint only log.\<close>

lemma report_progress_trace:
  "trace (report_progress env R s) = trace s \<or>
   (\<exists>speed eta. trace (report_progress env R s) = trace s @ [Progress speed eta])"
  by (simp add: report_progress_def Let_def)

lemma report_progress_fields [simp]:
  "totalInserted (report_progress env R s) = totalInserted s"
  "batchCount (report_progress env R s) = batchCount s"
  "fetches (report_progress env R s) = fetches s"
  "insert_attempts (report_progress env R s) = insert_attempts s"
  "pg_calls (report_progress env R s) = pg_calls s"
  "startTime (report_progress env R s) = startTime s"
  by (simp_all add: report_progress_def Let_def)

lemma report_progress_quiet [simp]:
  "page_fetches (trace (report_progress env R s)) = page_fetches (trace s)"
  "accepted_batches (trace (report_progress env R s)) = accepted_batches (trace s)"
  "abandoned_batches (trace (report_progress env R s)) = abandoned_batches (trace s)"
  "delays (trace (report_progress env R s)) = delays (trace s)"
  "rows_accepted (trace (report_progress env R s)) = rows_accepted (trace s)"
  "prefix (trace s) (trace (report_progress env R s))"
  using report_progress_trace [of env R s] by auto

lemma monitor_memory_trace:
  "trace (monitor_memory cfg env s) = trace s \<or>
   (\<exists>h. trace (monitor_memory cfg env s) = trace s @ [MemoryWarning h]) \<or>
   (\<exists>h. trace (monitor_memory cfg env s) = trace s @ [MemoryWarning h, ForcedGC])"
  by (simp add: monitor_memory_def Let_def)

lemma monitor_memory_fields [simp]:
  "totalInserted (monitor_memory cfg env s) = totalInserted s"
  "batchCount (monitor_memory cfg env s) = batchCount s"
  "fetches (monitor_memory cfg env s) = fetches s"
  "insert_attempts (monitor_memory cfg env s) = insert_attempts s"
  "pg_calls (monitor_memory cfg env s) = pg_calls s"
  "startTime (monitor_memory cfg env s) = startTime s"
  by (simp_all add: monitor_memory_def Let_def)

lemma monitor_memory_quiet [simp]:
  "page_fetches (trace (monitor_memory cfg env s)) = page_fetches (trace s)"
  "accepted_batches (trace (monitor_memory cfg env s)) = accepted_batches (trace s)"
  "abandoned_batches (trace (monitor_memory cfg env s)) = abandoned_batches (trace s)"
  "delays (trace (monitor_memory cfg env s)) = delays (trace s)"
  "rows_accepted (trace (monitor_memory cfg env s)) = rows_accepted (trace s)"
  "prefix (trace s) (trace (monitor_memory cfg env s))"
  using monitor_memory_trace [of cfg env s] by auto

lemma checkpoint_fields [simp]:
  "totalInserted (checkpoint cfg s) = totalInserted s"
  "batchCount (checkpoint cfg s) = batchCount s"
  "fetches (checkpoint cfg s) = fetches s"
  "insert_attempts (checkpoint cfg s) = insert_attempts s"
  "pg_calls (checkpoint cfg s) = pg_calls s"
  "startTime (checkpoint cfg s) = startTime s"
  by (simp_all add: checkpoint_def)

lemma checkpoint_quiet [simp]:
  "page_fetches (trace (checkpoint cfg s)) = page_fetches (trace s)"
  "accepted_batches (trace (checkpoint cfg s)) = accepted_batches (trace s)"
  "abandoned_batches (trace (checkpoint cfg s)) = abandoned_batches (trace s)"
  "delays (trace (checkpoint cfg s)) = delays (trace s)"
  "rows_accepted (trace (checkpoint cfg s)) = rows_accepted (trace s)"
  "prefix (trace s) (trace (checkpoint cfg s))"
  by (simp_all add: checkpoint_def)

text \<open>An accepted batch adds its rows to \<open>totalInserted\<close> and, apart from that, only logs.\<close>

lemma batch_inserted_fields [simp]:
  "totalInserted (batch_inserted cfg env R batch s) = totalInserted s + length batch"
  "batchCount (batch_inserted cfg env R batch s) = batchCount s"
  "fetches (batch_inserted cfg env R batch s) = fetches s"
  "insert_attempts (batch_inserted cfg env R batch s) = insert_attempts s"
  "pg_calls (batch_inserted cfg env R batch s) = pg_calls s"
  "startTime (batch_inserted cfg env R batch s) = startTime s"
  by (simp_all add: batch_inserted_def)

lemma batch_inserted_quiet [simp]:
  "page_fetches (trace (batch_inserted cfg env R batch s)) = page_fetches (trace s)"
  "accepted_batches (trace (batch_inserted cfg env R batch s)) = accepted_batches (trace s)"
  "abandoned_batches (trace (batch_inserted cfg env R batch s)) = abandoned_batches (trace s)"
  "delays (trace (batch_inserted cfg env R batch s)) = delays (trace s)"
  "rows_accepted (trace (batch_inserted cfg env R batch s)) = rows_accepted (trace s)"
  by (simp_all add: batch_inserted_def)

lemma batch_inserted_prefix [simp]:
  "prefix (trace s) (trace (batch_inserted cfg env R batch s))"
proof -
  have "prefix (trace s)
          (trace (report_progress env R (s\<lparr>totalInserted := totalInserted s + length batch\<rparr>)))"
    using report_progress_quiet(6) [of "s\<lparr>totalInserted := totalInserted s + length batch\<rparr>" env R]
    by simp
  also have "prefix \<dots> (trace (batch_inserted cfg env R batch s))"
    by (simp add: batch_inserted_def)
  finally show ?thesis .
qed

lemma page_requested_fields [simp]:
  "totalInserted (page_requested cfg R off s) = totalInserted s"
  "batchCount (page_requested cfg R off s) = batchCount s"
  "fetches (page_requested cfg R off s) = fetches s + 1"
  "insert_attempts (page_requested cfg R off s) = insert_attempts s"
  "pg_calls (page_requested cfg R off s) = pg_calls s"
  "startTime (page_requested cfg R off s) = startTime s"
  by (simp_all add: page_requested_def Let_def)

lemma page_requested_trace [simp]:
  "page_fetches (trace (page_requested cfg R off s))
     = page_fetches (trace s) @ [(page_limit cfg R off, off)]"
  "accepted_batches (trace (page_requested cfg R off s)) = accepted_batches (trace s)"
  "abandoned_batches (trace (page_requested cfg R off s)) = abandoned_batches (trace s)"
  "delays (trace (page_requested cfg R off s)) = delays (trace s)"
  "rows_accepted (trace (page_requested cfg R off s)) = rows_accepted (trace s)"
  "prefix (trace s) (trace (page_requested cfg R off s))"
  by (simp_all add: page_requested_def Let_def)

section \<open>The retry loop\<close>

text \<open>The four ways one round of the loop can go.\<close>

lemma retry_loop_over:
  assumes "\<not> (retries < MAX_RETRIES cfg \<and> \<not> batchInserted)"
  shows "retry_loop cfg env R batch retries batchInserted s = s"
  by (subst retry_loop.simps) (simp only: assms if_False)

lemma retry_loop_accepted:
  assumes "retries < MAX_RETRIES cfg" and "insert_ok env (insert_attempts s)"
  shows "retry_loop cfg env R batch retries False s =
           batch_inserted cfg env R batch (insert_sent (BatchInsert batch True) s)"
proof -
  have "retry_loop cfg env R batch retries True
          (batch_inserted cfg env R batch (insert_sent (BatchInsert batch True) s))
        = batch_inserted cfg env R batch (insert_sent (BatchInsert batch True) s)"
    by (rule retry_loop_over) simp
  with assms show ?thesis
    by (subst retry_loop.simps [of cfg env R batch retries False s]) (simp only: simp_thms if_True)
qed

lemma retry_loop_given_up:
  assumes "retries < MAX_RETRIES cfg" and "\<not> insert_ok env (insert_attempts s)"
    and "MAX_RETRIES cfg \<le> retries + 1"
  shows "retry_loop cfg env R batch retries False s =
           emit (BatchFailedPermanently (batchCount s))
             (emit (BatchFailed (batchCount s) (retries + 1))
                (insert_sent (BatchInsert batch False) s))"
  using assms
  by (subst retry_loop.simps [of cfg env R batch retries False s])
    (simp only: simp_thms if_True if_False)

lemma retry_loop_again:
  assumes "\<not> insert_ok env (insert_attempts s)" and "retries + 1 < MAX_RETRIES cfg"
  shows "retry_loop cfg env R batch retries False s =
           retry_loop cfg env R batch (retries + 1) False
             (emit (Sleep (1000 * (retries + 1)))
                (emit (BatchFailed (batchCount s) (retries + 1))
                   (insert_sent (BatchInsert batch False) s)))"
proof -
  from assms(2) have "retries < MAX_RETRIES cfg" and "\<not> MAX_RETRIES cfg \<le> retries + 1"
    by simp_all
  with assms(1) show ?thesis
    by (subst retry_loop.simps [of cfg env R batch retries False s])
      (simp only: simp_thms if_True if_False)
qed

lemma retry_loop_cases:
  obtains (over) "\<not> (retries < MAX_RETRIES cfg \<and> \<not> batchInserted)"
  | (accepted) "retries < MAX_RETRIES cfg" "\<not> batchInserted" "insert_ok env (insert_attempts s)"
  | (given_up) "retries < MAX_RETRIES cfg" "\<not> batchInserted"
      "\<not> insert_ok env (insert_attempts s)" "MAX_RETRIES cfg \<le> retries + 1"
  | (again) "\<not> batchInserted" "\<not> insert_ok env (insert_attempts s)"
      "retries + 1 < MAX_RETRIES cfg"
  by (cases "retries < MAX_RETRIES cfg \<and> \<not> batchInserted";
      cases "insert_ok env (insert_attempts s)"; cases "MAX_RETRIES cfg \<le> retries + 1")
    simp_all

text \<open>
  Whatever the target answers, the retry loop fetches nothing, keeps the batch counter,
  extends the trace, and adds to \<open>totalInserted\<close> exactly the rows of the batches
  the trace shows as accepted: nothing, or the batch once.
\<close>

lemma retry_loop_frame:
  "page_fetches (trace (retry_loop cfg env R batch retries b s)) = page_fetches (trace s) \<and>
   fetches (retry_loop cfg env R batch retries b s) = fetches s \<and>
   batchCount (retry_loop cfg env R batch retries b s) = batchCount s \<and>
   pg_calls (retry_loop cfg env R batch retries b s) = pg_calls s \<and>
   startTime (retry_loop cfg env R batch retries b s) = startTime s"
proof (induction cfg env R batch retries b s rule: retry_loop.induct)
  case (1 cfg env R batch retries b s)
  show ?case
  proof (cases rule: retry_loop_cases [where retries = retries and cfg = cfg and batchInserted = b and env = env and s = s])
    case over
    then show ?thesis by (simp add: retry_loop_over)
  next
    case accepted
    then show ?thesis by (simp add: retry_loop_accepted)
  next
    case given_up
    then show ?thesis by (simp add: retry_loop_given_up)
  next
    case again
    with "1.IH"(2) show ?thesis by (simp add: retry_loop_again)
  qed
qed

lemma retry_loop_prefix:
  "prefix (trace s) (trace (retry_loop cfg env R batch retries b s))"
proof (induction cfg env R batch retries b s rule: retry_loop.induct)
  case (1 cfg env R batch retries b s)
  show ?case
  proof (cases rule: retry_loop_cases [where retries = retries and cfg = cfg and batchInserted = b and env = env and s = s])
    case over
    then show ?thesis by (simp add: retry_loop_over)
  next
    case accepted
    have "prefix (trace s) (trace (insert_sent (BatchInsert batch True) s))" by simp
    also have "prefix \<dots>
        (trace (batch_inserted cfg env R batch (insert_sent (BatchInsert batch True) s)))"
      by (rule batch_inserted_prefix)
    finally show ?thesis using accepted by (simp add: retry_loop_accepted)
  next
    case given_up
    then show ?thesis by (simp add: retry_loop_given_up)
  next
    case again
    have "prefix (trace s)
        (trace (emit (Sleep (1000 * (retries + 1)))
            (emit (BatchFailed (batchCount s) (retries + 1))
               (insert_sent (BatchInsert batch False) s))))"
      by simp
    also from again "1.IH"(2) have "prefix \<dots> (trace (retry_loop cfg env R batch retries b s))"
      by (simp add: retry_loop_again)
    finally show ?thesis .
  qed
qed

lemma retry_loop_account:
  "totalInserted (retry_loop cfg env R batch retries b s) + rows_accepted (trace s)
     = totalInserted s + rows_accepted (trace (retry_loop cfg env R batch retries b s)) \<and>
   totalInserted s \<le> totalInserted (retry_loop cfg env R batch retries b s) \<and>
   totalInserted (retry_loop cfg env R batch retries b s)
     \<le> totalInserted s + (if b then 0 else length batch)"
proof (induction cfg env R batch retries b s rule: retry_loop.induct)
  case (1 cfg env R batch retries b s)
  show ?case
  proof (cases rule: retry_loop_cases [where retries = retries and cfg = cfg and batchInserted = b and env = env and s = s])
    case over
    then show ?thesis by (simp add: retry_loop_over)
  next
    case accepted
    then show ?thesis by (simp add: retry_loop_accepted)
  next
    case given_up
    then show ?thesis by (simp add: retry_loop_given_up)
  next
    case again
    with "1.IH"(2) show ?thesis by (simp add: retry_loop_again)
  qed
qed

text \<open>
  A batch that is refused \<open>k\<close> times and then accepted, with retries to spare: its
  rows are counted, it is not given up, and the delays waited are \<open>1000\<close> times the
  numbers of the failed attempts.
\<close>

lemma retry_loop_refused_then_accepted:
  assumes "\<forall>j<k. \<not> insert_ok env (insert_attempts s + j)"
    and "insert_ok env (insert_attempts s + k)"
    and "retries + k < MAX_RETRIES cfg"
  shows "totalInserted (retry_loop cfg env R batch retries False s)
           = totalInserted s + length batch \<and>
         accepted_batches (trace (retry_loop cfg env R batch retries False s))
           = accepted_batches (trace s) @ [batch] \<and>
         abandoned_batches (trace (retry_loop cfg env R batch retries False s))
           = abandoned_batches (trace s) \<and>
         delays (trace (retry_loop cfg env R batch retries False s))
           = delays (trace s) @ map (\<lambda>attempt. 1000 * attempt) [retries + 1 ..< retries + k + 1] \<and>
         insert_attempts (retry_loop cfg env R batch retries False s)
           = insert_attempts s + k + 1"
  using assms
proof (induction k arbitrary: retries s)
  case 0
  then show ?case by (simp add: retry_loop_accepted)
next
  case (Suc k)
  let ?s1 = "emit (Sleep (1000 * (retries + 1)))
               (emit (BatchFailed (batchCount s) (retries + 1))
                  (insert_sent (BatchInsert batch False) s))"
  from Suc.prems(1) have refused: "\<not> insert_ok env (insert_attempts s)"
    by (metis add.right_neutral zero_less_Suc)
  from Suc.prems(3) have more: "retries + 1 < MAX_RETRIES cfg" by simp
  have step: "retry_loop cfg env R batch retries False s
                = retry_loop cfg env R batch (retries + 1) False ?s1"
    using refused more by (rule retry_loop_again)
  have a: "\<forall>j<k. \<not> insert_ok env (insert_attempts ?s1 + j)"
  proof (intro allI impI)
    fix j assume "j < k"
    then have "Suc j < Suc k" by simp
    with Suc.prems(1) have "\<not> insert_ok env (insert_attempts s + Suc j)" by blast
    then show "\<not> insert_ok env (insert_attempts ?s1 + j)" by simp
  qed
  have b: "insert_ok env (insert_attempts ?s1 + k)"
    using Suc.prems(2) by simp
  have c: "(retries + 1) + k < MAX_RETRIES cfg"
    using Suc.prems(3) by simp
  have upt: "[retries + 1 ..< retries + Suc k + 1]
               = (retries + 1) # [retries + 1 + 1 ..< retries + 1 + k + 1]"
    by (simp add: upt_conv_Cons)
  from Suc.IH [OF a b c] show ?case
    unfolding step upt by simp
qed

text \<open>
  C3. With three attempts allowed, a batch that is refused twice and accepted at the
  third attempt is counted (its rows are added to \<open>totalInserted\<close>, it appears once
  among the accepted batches), no batch is given up, and exactly two delays are waited,
  \<open>1 * 1000\<close> and \<open>2 * 1000\<close> milliseconds.
\<close>

theorem third_attempt_accepted:
  assumes "MAX_RETRIES cfg = 3"
    and "\<not> insert_ok env (insert_attempts s)"
    and "\<not> insert_ok env (insert_attempts s + 1)"
    and "insert_ok env (insert_attempts s + 2)"
  shows "totalInserted (retry_loop cfg env R batch 0 False s)
           = totalInserted s + length batch \<and>
         accepted_batches (trace (retry_loop cfg env R batch 0 False s))
           = accepted_batches (trace s) @ [batch] \<and>
         abandoned_batches (trace (retry_loop cfg env R batch 0 False s))
           = abandoned_batches (trace s) \<and>
         delays (trace (retry_loop cfg env R batch 0 False s))
           = delays (trace s) @ [1 * 1000, 2 * 1000] \<and>
         insert_attempts (retry_loop cfg env R batch 0 False s) = insert_attempts s + 3"
proof -
  have a: "\<forall>j<2. \<not> insert_ok env (insert_attempts s + j)"
  proof (intro allI impI)
    fix j :: nat assume "j < 2"
    then have "j = 0 \<or> j = 1" by auto
    with assms(2,3) show "\<not> insert_ok env (insert_attempts s + j)" by auto
  qed
  have c: "0 + 2 < MAX_RETRIES cfg" using assms(1) by simp
  have upt: "[0 + 1 ..< 0 + 2 + 1] = [1, 2::nat]"
    by (simp add: upt_conv_Cons)
  from retry_loop_refused_then_accepted [OF a assms(4) c, of R batch]
  show ?thesis unfolding upt by simp
qed

theorem third_attempt_accepted_witness:
  "totalInserted
     (retry_loop CONFIG
        \<lparr>insert_ok = (\<lambda>k. 2 \<le> k), pg_ok = (\<lambda>k. True), pg_count = (\<lambda>k. ''2''),
          source = (\<lambda>k. Some [''row 1'', ''row 2'']), clock = (\<lambda>k. 0),
          heapUsed = (\<lambda>k. 0), gc_exposed = False, describe_reply = None,
          count_reply = Some 2\<rparr>
        2 [''row 1'', ''row 2''] 0 False fresh) = 2 \<and>
   abandoned_batches (trace
     (retry_loop CONFIG
        \<lparr>insert_ok = (\<lambda>k. 2 \<le> k), pg_ok = (\<lambda>k. True), pg_count = (\<lambda>k. ''2''),
          source = (\<lambda>k. Some [''row 1'', ''row 2'']), clock = (\<lambda>k. 0),
          heapUsed = (\<lambda>k. 0), gc_exposed = False, describe_reply = None,
          count_reply = Some 2\<rparr>
        2 [''row 1'', ''row 2''] 0 False fresh)) = [] \<and>
   delays (trace
     (retry_loop CONFIG
        \<lparr>insert_ok = (\<lambda>k. 2 \<le> k), pg_ok = (\<lambda>k. True), pg_count = (\<lambda>k. ''2''),
          source = (\<lambda>k. Some [''row 1'', ''row 2'']), clock = (\<lambda>k. 0),
          heapUsed = (\<lambda>k. 0), gc_exposed = False, describe_reply = None,
          count_reply = Some 2\<rparr>
        2 [''row 1'', ''row 2''] 0 False fresh)) = [1000, 2000]"
  using third_attempt_accepted [of CONFIG
        "\<lparr>insert_ok = (\<lambda>k. 2 \<le> k), pg_ok = (\<lambda>k. True), pg_count = (\<lambda>k. ''2''),
          source = (\<lambda>k. Some [''row 1'', ''row 2'']), clock = (\<lambda>k. 0),
          heapUsed = (\<lambda>k. 0), gc_exposed = False, describe_reply = None,
          count_reply = Some 2\<rparr>"
        fresh 2 "[''row 1'', ''row 2'']"]
  by (simp add: CONFIG_def fresh_def)

section \<open>The loop over the batches of a page\<close>

text \<open>
  Partial correctness: a property that holds when the loop stops at once, and that a
  round of the loop hands down, holds whenever the loop returns.
\<close>

lemma for_loop_induct [consumes 1, case_names stop round]:
  assumes ret: "for_loop cfg env R rows i s = Some s'"
    and stop: "\<And>i s. \<not> i < length rows \<Longrightarrow> P i s s"
    and round: "\<And>i s s'. i < length rows \<Longrightarrow>
        P (i + BATCH_SIZE cfg)
          (retry_loop cfg env R (slice rows i (i + BATCH_SIZE cfg)) 0 False
             (s\<lparr>batchCount := batchCount s + 1\<rparr>)) s' \<Longrightarrow> P i s s'"
  shows "P i s s'"
proof -
  let ?Q = "\<lambda>cfg' env' R' rows' i s y.
      cfg' = cfg \<longrightarrow> env' = env \<longrightarrow> R' = R \<longrightarrow> rows' = rows \<longrightarrow> P i s y"
  have "?Q cfg env R rows i s s'"
  proof (rule for_loop.raw_induct [where P = ?Q, OF _ ret])
    fix f cfg' env' R' rows' i s y
    assume IH: "\<And>cfg env R rows i s y. f cfg env R rows i s = Some y \<Longrightarrow> ?Q cfg env R rows i s y"
      and eq: "(if i < length rows'
          then f cfg' env' R' rows' (i + BATCH_SIZE cfg')
                 (retry_loop cfg' env' R' (slice rows' i (i + BATCH_SIZE cfg')) 0 False
                    (s\<lparr>batchCount := batchCount s + 1\<rparr>))
          else Some s) = Some y"
    show "?Q cfg' env' R' rows' i s y"
    proof (intro impI)
      assume same: "cfg' = cfg" "env' = env" "R' = R" "rows' = rows"
      show "P i s y"
      proof (cases "i < length rows")
        case True
        with eq same have "f cfg env R rows (i + BATCH_SIZE cfg)
            (retry_loop cfg env R (slice rows i (i + BATCH_SIZE cfg)) 0 False
               (s\<lparr>batchCount := batchCount s + 1\<rparr>)) = Some y"
          by simp
        from IH [OF this] have "P (i + BATCH_SIZE cfg)
            (retry_loop cfg env R (slice rows i (i + BATCH_SIZE cfg)) 0 False
               (s\<lparr>batchCount := batchCount s + 1\<rparr>)) y"
          by simp
        with True show ?thesis by (rule round)
      next
        case False
        with eq same have "y = s" by simp
        with False stop show ?thesis by simp
      qed
    qed
  qed
  then show ?thesis by simp
qed

text \<open>With a positive batch size the loop returns.\<close>

lemma for_loop_terminates:
  assumes "0 < BATCH_SIZE cfg"
  shows "\<exists>s'. for_loop cfg env R rows i s = Some s'"
proof (induction "length rows - i" arbitrary: i s rule: less_induct)
  case less
  show ?case
  proof (cases "i < length rows")
    case True
    with assms have "length rows - (i + BATCH_SIZE cfg) < length rows - i" by simp
    from less [OF this] True show ?thesis
      by (subst for_loop.simps) simp
  next
    case False
    then show ?thesis by (subst for_loop.simps) simp
  qed
qed

lemma length_slice: "length (slice rows i (i + b)) = min b (length rows - i)"
  by (simp add: slice_def)

text \<open>
  Whatever the target answers, the loop over a page fetches nothing, extends the trace,
  and adds to \<open>totalInserted\<close> the rows the trace shows as accepted, at most the rows
  of the page from index \<open>i\<close> on.
\<close>

lemma for_loop_frame:
  assumes "for_loop cfg env R rows i s = Some s'"
  shows "page_fetches (trace s') = page_fetches (trace s) \<and> fetches s' = fetches s \<and>
         pg_calls s' = pg_calls s \<and> startTime s' = startTime s"
  using assms
proof (induction rule: for_loop_induct)
  case (stop i s)
  show ?case by simp
next
  case (round i s s')
  then show ?case by (simp add: retry_loop_frame)
qed

lemma for_loop_prefix:
  assumes "for_loop cfg env R rows i s = Some s'"
  shows "prefix (trace s) (trace s')"
  using assms
proof (induction rule: for_loop_induct)
  case (stop i s)
  show ?case by simp
next
  case (round i s s')
  have "prefix (trace s) (trace (s\<lparr>batchCount := batchCount s + 1\<rparr>))" by simp
  also have "prefix \<dots> (trace (retry_loop cfg env R (slice rows i (i + BATCH_SIZE cfg)) 0 False
             (s\<lparr>batchCount := batchCount s + 1\<rparr>)))"
    by (rule retry_loop_prefix)
  also note round(2)
  finally show ?case .
qed

lemma for_loop_account:
  assumes "for_loop cfg env R rows i s = Some s'"
  shows "totalInserted s' + rows_accepted (trace s) = totalInserted s + rows_accepted (trace s') \<and>
         totalInserted s \<le> totalInserted s' \<and>
         totalInserted s' \<le> totalInserted s + (length rows - i)"
  using assms
proof (induction rule: for_loop_induct)
  case (stop i s)
  show ?case by simp
next
  case (round i s s')
  let ?s0 = "s\<lparr>batchCount := batchCount s + 1\<rparr>"
  let ?batch = "slice rows i (i + BATCH_SIZE cfg)"
  let ?s1 = "retry_loop cfg env R ?batch 0 False ?s0"
  from retry_loop_account [of cfg env R ?batch 0 False ?s0]
  have a: "totalInserted ?s1 + rows_accepted (trace s) = totalInserted s + rows_accepted (trace ?s1)"
    and b: "totalInserted s \<le> totalInserted ?s1"
    and c: "totalInserted ?s1 \<le> totalInserted s + min (BATCH_SIZE cfg) (length rows - i)"
    by (simp_all add: length_slice)
  from round(2) a b c round(1) show ?case by auto
qed

text \<open>The batch counter counts the batches of the page.\<close>

lemma batch_sizes_step:
  assumes "i < n" and "0 < b"
  shows "batch_sizes b (n - i) = min b (n - i) # batch_sizes b (n - (i + b))"
proof -
  have "n - i - min b (n - i) = n - (i + b)" by simp
  with assms show ?thesis
    by (subst batch_sizes.simps) simp
qed

lemma batch_sizes_zero [simp]: "batch_sizes b 0 = []"
  by (subst batch_sizes.simps) simp

lemma batch_sizes_none: "\<not> i < n \<Longrightarrow> batch_sizes b (n - i) = []"
  by simp

lemma for_loop_batchCount:
  assumes "for_loop cfg env R rows i s = Some s'" and "0 < BATCH_SIZE cfg"
  shows "batchCount s' = batchCount s + length (batch_sizes (BATCH_SIZE cfg) (length rows - i))"
  using assms(1)
proof (induction rule: for_loop_induct)
  case (stop i s)
  then show ?case by (simp add: batch_sizes_none)
next
  case (round i s s')
  with assms(2) show ?case
    by (simp add: retry_loop_frame batch_sizes_step)
qed


lemma upt_from_by_Suc: "[a ..< a + Suc n] = a # [a + 1 ..< a + 1 + n]"
  by (simp add: upt_conv_Cons)

text \<open>
  When the target refuses every insert, a batch is tried \<open>MAX_RETRIES\<close> times, with
  the delays in between, and given up; nothing is added to \<open>totalInserted\<close>.
\<close>

lemma retry_loop_all_refused:
  assumes "\<forall>k. \<not> insert_ok env k" and "retries < MAX_RETRIES cfg"
  shows "totalInserted (retry_loop cfg env R batch retries False s) = totalInserted s \<and>
         accepted_batches (trace (retry_loop cfg env R batch retries False s))
           = accepted_batches (trace s) \<and>
         abandoned_batches (trace (retry_loop cfg env R batch retries False s))
           = abandoned_batches (trace s) @ [batchCount s] \<and>
         delays (trace (retry_loop cfg env R batch retries False s))
           = delays (trace s) @ map (\<lambda>attempt. 1000 * attempt) [retries + 1 ..< MAX_RETRIES cfg]"
  using assms(2)
proof (induction "MAX_RETRIES cfg - retries" arbitrary: retries s rule: less_induct)
  case less
  have refused: "\<not> insert_ok env (insert_attempts s)" using assms(1) by simp
  show ?case
  proof (cases "retries + 1 < MAX_RETRIES cfg")
    case True
    let ?s1 = "emit (Sleep (1000 * (retries + 1)))
                 (emit (BatchFailed (batchCount s) (retries + 1))
                    (insert_sent (BatchInsert batch False) s))"
    have step: "retry_loop cfg env R batch retries False s
                  = retry_loop cfg env R batch (retries + 1) False ?s1"
      using refused True by (rule retry_loop_again)
    have "MAX_RETRIES cfg - (retries + 1) < MAX_RETRIES cfg - retries"
      using True by simp
    from less(1) [OF this True, of ?s1]
    show ?thesis unfolding step using True by (simp add: upt_conv_Cons)
  next
    case False
    with less(2) have last: "MAX_RETRIES cfg \<le> retries + 1" by simp
    then have "[retries + 1 ..< MAX_RETRIES cfg] = []" by simp
    with retry_loop_given_up [OF less(2) refused last, of R batch]
    show ?thesis by simp
  qed
qed

lemma for_loop_all_refused:
  assumes "for_loop cfg env R rows i s = Some s'"
    and "\<forall>k. \<not> insert_ok env k" and "0 < MAX_RETRIES cfg" and "0 < BATCH_SIZE cfg"
  shows "totalInserted s' = totalInserted s \<and>
         accepted_batches (trace s') = accepted_batches (trace s) \<and>
         abandoned_batches (trace s')
           = abandoned_batches (trace s)
               @ [batchCount s + 1 ..<
                    batchCount s + 1 + length (batch_sizes (BATCH_SIZE cfg) (length rows - i))]"
  using assms(1)
proof (induction rule: for_loop_induct)
  case (stop i s)
  then show ?case by simp
next
  case (round i s s')
  let ?s0 = "s\<lparr>batchCount := batchCount s + 1\<rparr>"
  let ?batch = "slice rows i (i + BATCH_SIZE cfg)"
  let ?s1 = "retry_loop cfg env R ?batch 0 False ?s0"
  let ?n = "length (batch_sizes (BATCH_SIZE cfg) (length rows - (i + BATCH_SIZE cfg)))"
  from retry_loop_all_refused [OF assms(2,3), of R ?batch ?s0]
  have one: "totalInserted ?s1 = totalInserted s"
    "accepted_batches (trace ?s1) = accepted_batches (trace s)"
    "abandoned_batches (trace ?s1) = abandoned_batches (trace s) @ [batchCount s + 1]"
    by simp_all
  have bc: "batchCount ?s1 = batchCount s + 1"
    by (simp add: retry_loop_frame)
  from round(2) one bc have rest: "totalInserted s' = totalInserted s"
    "accepted_batches (trace s') = accepted_batches (trace s)"
    "abandoned_batches (trace s')
       = abandoned_batches (trace s) @ (batchCount s + 1)
           # [batchCount s + 1 + 1 ..< batchCount s + 1 + 1 + ?n]"
    by simp_all
  have "length (batch_sizes (BATCH_SIZE cfg) (length rows - i)) = Suc ?n"
    using round(1) assms(4) by (simp add: batch_sizes_step)
  then have "[batchCount s + 1 ..<
           batchCount s + 1 + length (batch_sizes (BATCH_SIZE cfg) (length rows - i))]
        = (batchCount s + 1) # [batchCount s + 1 + 1 ..< batchCount s + 1 + 1 + ?n]"
    by (simp only: upt_from_by_Suc)
  with rest show ?case by simp
qed

section \<open>The loop over the pages\<close>

text \<open>The ways one round of the loop can go.\<close>

lemma while_loop_done:
  "\<not> offset < R \<Longrightarrow> while_loop cfg env R offset s = Some (Inr (), s)"
  by (subst while_loop.simps) simp

lemma while_loop_thrown:
  "offset < R \<Longrightarrow> source env (fetches s) = None \<Longrightarrow>
     while_loop cfg env R offset s = Some (Inl MySQLError, page_requested cfg R offset s)"
  by (subst while_loop.simps) simp

lemma while_loop_no_rows:
  "offset < R \<Longrightarrow> source env (fetches s) = Some table \<Longrightarrow>
   take (page_limit cfg R offset) (drop offset table) = [] \<Longrightarrow>
     while_loop cfg env R offset s = Some (Inr (), page_requested cfg R offset s)"
  by (subst while_loop.simps) simp

lemma while_loop_stuck:
  "offset < R \<Longrightarrow> source env (fetches s) = Some table \<Longrightarrow>
   take (page_limit cfg R offset) (drop offset table) \<noteq> [] \<Longrightarrow>
   for_loop cfg env R (take (page_limit cfg R offset) (drop offset table)) 0
     (page_requested cfg R offset s) = None \<Longrightarrow>
     while_loop cfg env R offset s = None"
  by (subst while_loop.simps) simp

lemma while_loop_page:
  "offset < R \<Longrightarrow> source env (fetches s) = Some table \<Longrightarrow>
   take (page_limit cfg R offset) (drop offset table) \<noteq> [] \<Longrightarrow>
   for_loop cfg env R (take (page_limit cfg R offset) (drop offset table)) 0
     (page_requested cfg R offset s) = Some s1 \<Longrightarrow>
     while_loop cfg env R offset s =
       while_loop cfg env R
         (offset + length (take (page_limit cfg R offset) (drop offset table)))
         (checkpoint cfg s1)"
  by (subst while_loop.simps) simp

text \<open>
  Partial correctness of the loop over the pages, as an induction rule: a property of
  the start and the result that holds for each way the loop ends, and that a page
  hands down, holds whenever the loop returns.
\<close>

lemma while_loop_induct [consumes 1, case_names ended thrown no_rows page]:
  assumes ret: "while_loop cfg env R offset s = Some (r, s')"
    and "\<And>offset s. \<not> offset < R \<Longrightarrow> P offset s (Inr ()) s"
    and "\<And>offset s. offset < R \<Longrightarrow> source env (fetches s) = None \<Longrightarrow>
        P offset s (Inl MySQLError) (page_requested cfg R offset s)"
    and "\<And>offset s table. offset < R \<Longrightarrow> source env (fetches s) = Some table \<Longrightarrow>
        take (page_limit cfg R offset) (drop offset table) = [] \<Longrightarrow>
        P offset s (Inr ()) (page_requested cfg R offset s)"
    and "\<And>offset s table s1 r s'. offset < R \<Longrightarrow> source env (fetches s) = Some table \<Longrightarrow>
        take (page_limit cfg R offset) (drop offset table) \<noteq> [] \<Longrightarrow>
        for_loop cfg env R (take (page_limit cfg R offset) (drop offset table)) 0
          (page_requested cfg R offset s) = Some s1 \<Longrightarrow>
        P (offset + length (take (page_limit cfg R offset) (drop offset table)))
          (checkpoint cfg s1) r s' \<Longrightarrow>
        P offset s r s'"
  shows "P offset s r s'"
  using assms
proof (induction cfg env R offset s rule: while_loop.induct)
  case (1 cfg env R offset s)
  show ?case
  proof (cases "offset < R")
    case False
    with "1.prems"(1) have "r = Inr ()" "s' = s" by (simp_all add: while_loop_done)
    with False "1.prems"(2) show ?thesis by simp
  next
    case True
    show ?thesis
    proof (cases "source env (fetches s)")
      case None
      with True "1.prems"(1) have "r = Inl MySQLError" "s' = page_requested cfg R offset s"
        by (simp_all add: while_loop_thrown)
      with True None "1.prems"(3) show ?thesis by simp
    next
      case (Some table)
      let ?rows = "take (page_limit cfg R offset) (drop offset table)"
      show ?thesis
      proof (cases "?rows = []")
        case empty: True
        with True Some "1.prems"(1) have "r = Inr ()" "s' = page_requested cfg R offset s"
          by (simp_all add: while_loop_no_rows)
        with True Some empty "1.prems"(4) show ?thesis by simp
      next
        case rows: False
        show ?thesis
        proof (cases "for_loop cfg env R ?rows 0 (page_requested cfg R offset s)")
          case None
          with True Some rows "1.prems"(1) show ?thesis
            by (simp add: while_loop_stuck)
        next
          case inner: (Some s1)
          from "1.prems"(1) have next_ret:
            "while_loop cfg env R (offset + length ?rows) (checkpoint cfg s1) = Some (r, s')"
            by (simp add: while_loop_page [OF True Some rows inner])
          have "P (offset + length ?rows) (checkpoint cfg s1) r s'"
            by (rule "1.IH" [OF True Some rows inner next_ret "1.prems"(2-5)])
          with True Some rows inner show ?thesis by (rule "1.prems"(5))
        qed
      qed
    qed
  qed
qed

text \<open>With a positive batch size the loop over the pages returns.\<close>

lemma while_loop_terminates:
  assumes "0 < BATCH_SIZE cfg"
  shows "\<exists>r s'. while_loop cfg env R offset s = Some (r, s')"
  using assms
proof (induction cfg env R offset s rule: while_loop.induct)
  case (1 cfg env R offset s)
  show ?case
  proof (cases "offset < R")
    case False
    then show ?thesis by (simp add: while_loop_done)
  next
    case True
    show ?thesis
    proof (cases "source env (fetches s)")
      case None
      with True show ?thesis by (simp add: while_loop_thrown)
    next
      case (Some table)
      let ?rows = "take (page_limit cfg R offset) (drop offset table)"
      show ?thesis
      proof (cases "?rows = []")
        case empty: True
        with True Some show ?thesis by (simp add: while_loop_no_rows)
      next
        case rows: False
        from for_loop_terminates [OF "1.prems"] obtain s1 where
          inner: "for_loop cfg env R ?rows 0 (page_requested cfg R offset s) = Some s1"
          by blast
        from "1.IH" [OF True Some rows inner "1.prems"]
        show ?thesis by (simp add: while_loop_page [OF True Some rows inner])
      qed
    qed
  qed
qed

text \<open>The only error the loop passes on is a failed page fetch.\<close>

lemma while_loop_no_error:
  assumes "while_loop cfg env R offset s = Some (r, s')" and "\<forall>k. source env k \<noteq> None"
  shows "r = Inr ()"
  using assms(1)
proof (induction rule: while_loop_induct)
  case (thrown offset s)
  with assms(2) show ?case by (metis option.distinct(1))
qed simp_all

lemma length_page: "length (take (page_limit cfg R offset) (drop offset table)) \<le> R - offset"
  by (simp add: page_limit_def)

text \<open>
  Whatever the source returns and the target answers: the loop extends the trace, every
  page it fetches lies inside \<open>totalRows\<close>, and \<open>totalInserted\<close> grows by the rows
  the trace shows as accepted, at most by \<open>totalRows - offset\<close>.
\<close>

lemma while_loop_frame:
  assumes "while_loop cfg env R offset s = Some (r, s')"
  shows "pg_calls s' = pg_calls s \<and> startTime s' = startTime s"
  using assms
proof (induction rule: while_loop_induct)
  case (page offset s table s1 r s')
  from for_loop_frame [OF page(4)] page(5) show ?case by simp
qed simp_all

lemma while_loop_prefix:
  assumes "while_loop cfg env R offset s = Some (r, s')"
  shows "prefix (trace s) (trace s')"
  using assms
proof (induction rule: while_loop_induct)
  case (page offset s table s1 r s')
  have "prefix (trace s) (trace (page_requested cfg R offset s))" by simp
  also have "prefix \<dots> (trace s1)" using page(4) by (rule for_loop_prefix)
  also have "prefix \<dots> (trace (checkpoint cfg s1))" by simp
  also note page(5)
  finally show ?case .
qed simp_all

lemma while_loop_account:
  assumes "while_loop cfg env R offset s = Some (r, s')"
  shows "totalInserted s' + rows_accepted (trace s) = totalInserted s + rows_accepted (trace s') \<and>
         totalInserted s \<le> totalInserted s' \<and>
         totalInserted s' \<le> totalInserted s + (R - offset)"
  using assms
proof (induction rule: while_loop_induct)
  case (page offset s table s1 r s')
  let ?rows = "take (page_limit cfg R offset) (drop offset table)"
  from for_loop_account [OF page(4)]
  have a: "totalInserted s1 + rows_accepted (trace s) = totalInserted s + rows_accepted (trace s1)"
    and b: "totalInserted s \<le> totalInserted s1"
    and c: "totalInserted s1 \<le> totalInserted s + length ?rows"
    by simp_all
  have d: "length ?rows \<le> R - offset" by (rule length_page)
  from page(5) have e: "totalInserted s' + rows_accepted (trace s1)
        = totalInserted s1 + rows_accepted (trace s')"
    and f: "totalInserted s1 \<le> totalInserted s'"
    and g: "totalInserted s' \<le> totalInserted s1 + (R - (offset + length ?rows))"
    by simp_all
  from a b c d e f g show ?case by linarith
qed simp_all

lemma while_loop_fetches_inside:
  assumes "while_loop cfg env R offset s = Some (r, s')"
  shows "\<exists>new. page_fetches (trace s') = page_fetches (trace s) @ new \<and>
           list_all (\<lambda>(limit, off). off + limit \<le> R) new"
  using assms
proof (induction rule: while_loop_induct)
  case (ended offset s)
  show ?case by simp
next
  case (thrown offset s)
  then show ?case by (simp add: page_limit_def)
next
  case (no_rows offset s table)
  then show ?case by (simp add: page_limit_def)
next
  case (page offset s table s1 r s')
  from page(5) obtain new where
    new: "page_fetches (trace s') = page_fetches (trace (checkpoint cfg s1)) @ new"
      "list_all (\<lambda>(limit, off). off + limit \<le> R) new"
    by blast
  from for_loop_frame [OF page(4)] new(1)
  have "page_fetches (trace s') = page_fetches (trace s) @ (page_limit cfg R offset, offset) # new"
    by simp
  moreover from page(1) new(2)
  have "list_all (\<lambda>(limit, off). off + limit \<le> R) ((page_limit cfg R offset, offset) # new)"
    by (simp add: page_limit_def)
  ultimately show ?case by blast
qed

text \<open>When the target refuses every insert, nothing is ever accepted.\<close>

lemma retry_loop_none_accepted:
  assumes "\<forall>k. \<not> insert_ok env k"
  shows "totalInserted (retry_loop cfg env R batch retries b s) = totalInserted s \<and>
         accepted_batches (trace (retry_loop cfg env R batch retries b s))
           = accepted_batches (trace s)"
  using assms
proof (induction cfg env R batch retries b s rule: retry_loop.induct)
  case (1 cfg env R batch retries b s)
  show ?case
  proof (cases rule: retry_loop_cases [where retries = retries and cfg = cfg
        and batchInserted = b and env = env and s = s])
    case over
    then show ?thesis by (simp add: retry_loop_over)
  next
    case accepted
    with "1.prems" show ?thesis by simp
  next
    case given_up
    then show ?thesis by (simp add: retry_loop_given_up)
  next
    case again
    with "1.IH"(2) "1.prems" show ?thesis by (simp add: retry_loop_again)
  qed
qed

lemma for_loop_none_accepted:
  assumes "for_loop cfg env R rows i s = Some s'" and "\<forall>k. \<not> insert_ok env k"
  shows "totalInserted s' = totalInserted s \<and>
         accepted_batches (trace s') = accepted_batches (trace s)"
  using assms(1)
proof (induction rule: for_loop_induct)
  case (stop i s)
  show ?case by simp
next
  case (round i s s')
  with retry_loop_none_accepted [OF assms(2)] show ?case by simp
qed

lemma while_loop_none_accepted:
  assumes "while_loop cfg env R offset s = Some (r, s')" and "\<forall>k. \<not> insert_ok env k"
  shows "totalInserted s' = totalInserted s \<and>
         accepted_batches (trace s') = accepted_batches (trace s)"
  using assms(1)
proof (induction rule: while_loop_induct)
  case (page offset s table s1 r s')
  from for_loop_none_accepted [OF page(4) assms(2)] page(5) show ?case by simp
qed simp_all

section \<open>The transfer as a whole\<close>

lemma copy_started_fields [simp]:
  "trace (copy_started env s) = trace s"
  "totalInserted (copy_started env s) = 0"
  "batchCount (copy_started env s) = 0"
  "pg_calls (copy_started env s) = pg_calls s"
  "fetches (copy_started env s) = fetches s"
  "insert_attempts (copy_started env s) = insert_attempts s"
  by (simp_all add: copy_started_def)

lemma copy_completed_fields [simp]:
  "totalInserted (copy_completed env R s) = totalInserted s"
  "batchCount (copy_completed env R s) = batchCount s"
  "pg_calls (copy_completed env R s) = pg_calls s"
  "page_fetches (trace (copy_completed env R s)) = page_fetches (trace s)"
  "accepted_batches (trace (copy_completed env R s)) = accepted_batches (trace s)"
  "abandoned_batches (trace (copy_completed env R s)) = abandoned_batches (trace s)"
  "delays (trace (copy_completed env R s)) = delays (trace s)"
  "rows_accepted (trace (copy_completed env R s)) = rows_accepted (trace s)"
  "prefix (trace s) (trace (copy_completed env R s))"
  by (simp_all add: copy_completed_def Let_def)

text \<open>
  What \<open>copyTableDataStream\<close> returns, in terms of its loop: the error of the loop, or
  the \<open>totalInserted\<close> the loop ended with; the summary only logs.
\<close>

lemma copyTableDataStream_returned:
  assumes "copyTableDataStream cfg env R s = Some (r, s')"
  obtains rw sw where "while_loop cfg env R 0 (copy_started env s) = Some (rw, sw)"
    and "r = (case rw of Inl e \<Rightarrow> Inl e | Inr u \<Rightarrow> Inr (totalInserted sw))"
    and "totalInserted s' = totalInserted sw"
    and "pg_calls s' = pg_calls sw"
    and "prefix (trace sw) (trace s')"
    and "page_fetches (trace s') = page_fetches (trace sw)"
    and "accepted_batches (trace s') = accepted_batches (trace sw)"
    and "abandoned_batches (trace s') = abandoned_batches (trace sw)"
    and "delays (trace s') = delays (trace sw)"
    and "rows_accepted (trace s') = rows_accepted (trace sw)"
proof (cases "while_loop cfg env R 0 (copy_started env s)")
  case None
  with assms show ?thesis by (simp add: copyTableDataStream_def copy_returned_def)
next
  case (Some p)
  obtain rw sw where p: "p = (rw, sw)" by (cases p)
  show ?thesis
  proof (cases rw)
    case (Inl e)
    with assms Some p have "r = Inl e" "s' = sw"
      by (simp_all add: copyTableDataStream_def copy_returned_def)
    with Some p Inl that show ?thesis by simp
  next
    case (Inr u)
    with assms Some p have "r = Inr (totalInserted sw)" "s' = copy_completed env R sw"
      by (simp_all add: copyTableDataStream_def copy_returned_def)
    with Some p Inr that show ?thesis by simp
  qed
qed

lemma copyTableDataStream_returns:
  assumes "while_loop cfg env R 0 (copy_started env s) = Some (Inr (), sw)"
  shows "copyTableDataStream cfg env R s
           = Some (Inr (totalInserted sw), copy_completed env R sw)"
  using assms by (simp add: copyTableDataStream_def copy_returned_def)

lemma copyTableDataStream_terminates:
  assumes "0 < BATCH_SIZE cfg"
  shows "\<exists>r s'. copyTableDataStream cfg env R s = Some (r, s')"
proof -
  from while_loop_terminates [OF assms] obtain rw sw where
    "while_loop cfg env R 0 (copy_started env s) = Some (rw, sw)" by blast
  then show ?thesis
    by (cases rw) (simp_all add: copyTableDataStream_def copy_returned_def)
qed

lemma rows_accepted_take: "rows_accepted (take k t) \<le> rows_accepted t"
proof -
  have "rows_accepted (take k t @ drop k t) = rows_accepted (take k t) + rows_accepted (drop k t)"
    by (rule projections_append)
  then show ?thesis by simp
qed

text \<open>
  C10. Whatever the source returns, also when it has gained rows since they were
  counted, and whatever the target answers: every page fetch asks for rows inside
  \<open>totalRows\<close> (\<open>offset + limit \<le> totalRows\<close>), at every point of the run the rows
  accepted so far are at most \<open>totalRows\<close>, \<open>totalInserted\<close> ends as the number of
  rows accepted, and the value returned is that number, at most \<open>totalRows\<close>. With a
  positive batch size the transfer does return.
\<close>

theorem rowsCopied_bounded:
  "(\<forall>r s'. copyTableDataStream cfg env totalRows s = Some (r, s') \<longrightarrow>
      (\<exists>ev. trace s' = trace s @ ev \<and>
            list_all (\<lambda>(limit, off). off + limit \<le> totalRows) (page_fetches ev) \<and>
            (\<forall>k. rows_accepted (take k ev) \<le> totalRows) \<and>
            totalInserted s' = rows_accepted ev \<and>
            totalInserted s' \<le> totalRows \<and>
            (\<forall>n. r = Inr n \<longrightarrow> n = totalInserted s' \<and> n \<le> totalRows))) \<and>
   (0 < BATCH_SIZE cfg \<longrightarrow> (\<exists>r s'. copyTableDataStream cfg env totalRows s = Some (r, s')))"
proof (intro conjI allI impI)
  fix r s'
  assume ret: "copyTableDataStream cfg env totalRows s = Some (r, s')"
  from ret obtain rw sw where
    loop: "while_loop cfg env totalRows 0 (copy_started env s) = Some (rw, sw)"
    and r: "r = (case rw of Inl e \<Rightarrow> Inl e | Inr u \<Rightarrow> Inr (totalInserted sw))"
    and t: "totalInserted s' = totalInserted sw"
    and pre: "prefix (trace sw) (trace s')"
    and pf: "page_fetches (trace s') = page_fetches (trace sw)"
    and ra: "rows_accepted (trace s') = rows_accepted (trace sw)"
    by (rule copyTableDataStream_returned)
  from while_loop_prefix [OF loop] pre have "prefix (trace s) (trace s')"
    by simp
  then obtain ev where ev: "trace s' = trace s @ ev"
    by (auto simp: prefix_def)
  from while_loop_account [OF loop] have
    acc: "totalInserted sw + rows_accepted (trace s) = rows_accepted (trace sw)"
    and le: "totalInserted sw \<le> totalRows"
    by simp_all
  from acc ra ev have rows: "rows_accepted ev = totalInserted sw"
    by simp
  from while_loop_fetches_inside [OF loop] obtain new where
    new: "page_fetches (trace sw) = page_fetches (trace s) @ new"
      "list_all (\<lambda>(limit, off). off + limit \<le> totalRows) new"
    by auto
  from new(1) pf ev have "page_fetches ev = new" by simp
  with new(2) have inside: "list_all (\<lambda>(limit, off). off + limit \<le> totalRows) (page_fetches ev)"
    by simp
  have throughout: "\<forall>k. rows_accepted (take k ev) \<le> totalRows"
  proof
    fix k
    have "rows_accepted (take k ev) \<le> rows_accepted ev" by (rule rows_accepted_take)
    with rows le show "rows_accepted (take k ev) \<le> totalRows" by simp
  qed
  have returned: "\<forall>n. r = Inr n \<longrightarrow> n = totalInserted s' \<and> n \<le> totalRows"
    using r t le by (cases rw) auto
  from ev inside throughout rows t le returned
  show "\<exists>ev. trace s' = trace s @ ev \<and>
            list_all (\<lambda>(limit, off). off + limit \<le> totalRows) (page_fetches ev) \<and>
            (\<forall>k. rows_accepted (take k ev) \<le> totalRows) \<and>
            totalInserted s' = rows_accepted ev \<and>
            totalInserted s' \<le> totalRows \<and>
            (\<forall>n. r = Inr n \<longrightarrow> n = totalInserted s' \<and> n \<le> totalRows)"
    by auto
next
  assume "0 < BATCH_SIZE cfg"
  then show "\<exists>r s'. copyTableDataStream cfg env totalRows s = Some (r, s')"
    by (rule copyTableDataStream_terminates)
qed

theorem rowsCopied_bounded_witness:
  "\<exists>s'. copyTableDataStream scenario_config growing 12 fresh = Some (Inr 12, s') \<and>
        totalInserted s' \<le> 12 \<and>
        page_fetches (trace s') = [(10, 0), (2, 10)]"
proof -
  have run: "map_option (\<lambda>(r, s'). (r, page_fetches (trace s')))
               (copyTableDataStream scenario_config growing 12 fresh)
             = Some (Inr 12, [(10, 0), (2, 10)])"
    by (simp add: scenario_config_def growing_def steady_def twelve_rows_def run_defs)
  then obtain r s' where
    ret: "copyTableDataStream scenario_config growing 12 fresh = Some (r, s')"
    by (cases "copyTableDataStream scenario_config growing 12 fresh") auto
  with run have r: "r = Inr 12" and f: "page_fetches (trace s') = [(10, 0), (2, 10)]"
    by simp_all
  from rowsCopied_bounded [of scenario_config growing 12 fresh, THEN conjunct1,
      THEN spec, THEN spec, THEN mp, OF ret]
  have "totalInserted s' \<le> 12" by blast
  with ret r f show ?thesis by blast
qed

section \<open>A source table that does not change\<close>

lemma windows_none: "\<not> offset < R \<Longrightarrow> windows P R offset = []"
  by (subst windows.simps) simp

lemma windows_step:
  "offset < R \<Longrightarrow> 0 < P \<Longrightarrow>
     windows P R offset = (min P (R - offset), offset) # windows P R (offset + min P (R - offset))"
  by (subst windows.simps) simp

lemma table_batch_sizes_none: "\<not> offset < R \<Longrightarrow> table_batch_sizes B P R offset = []"
  by (simp add: table_batch_sizes_def windows_none)

lemma table_batch_sizes_step:
  "offset < R \<Longrightarrow> 0 < P \<Longrightarrow>
     table_batch_sizes B P R offset
       = batch_sizes B (min P (R - offset))
           @ table_batch_sizes B P R (offset + min P (R - offset))"
  by (simp add: table_batch_sizes_def windows_step)

text \<open>
  The page read from a table that holds at least \<open>totalRows\<close> rows: it is never empty
  and as long as the limit asked for.
\<close>

lemma static_page:
  assumes "offset < R" and "R \<le> length table" and "0 < STREAM_LIMIT cfg"
  shows "page_limit cfg R offset = min (STREAM_LIMIT cfg) (R - offset)"
    and "length (take (page_limit cfg R offset) (drop offset table))
           = min (STREAM_LIMIT cfg) (R - offset)"
    and "take (page_limit cfg R offset) (drop offset table) \<noteq> []"
proof -
  show l: "page_limit cfg R offset = min (STREAM_LIMIT cfg) (R - offset)"
    by (simp add: page_limit_def)
  from assms show n: "length (take (page_limit cfg R offset) (drop offset table))
           = min (STREAM_LIMIT cfg) (R - offset)"
    by (simp add: page_limit_def)
  from assms have "0 < min (STREAM_LIMIT cfg) (R - offset)" by simp
  with n show "take (page_limit cfg R offset) (drop offset table) \<noteq> []"
    by (metis length_greater_0_conv)
qed

text \<open>
  On such a table, whatever the target answers, the loop fetches exactly the windows of
  the specification, never fails, and numbers the batches of all pages.
\<close>

lemma while_loop_static:
  assumes "while_loop cfg env R offset s = Some (r, s')"
    and static: "\<forall>k. source env k = Some table" and enough: "R \<le> length table"
    and P: "0 < STREAM_LIMIT cfg" and B: "0 < BATCH_SIZE cfg"
  shows "r = Inr () \<and>
         page_fetches (trace s') = page_fetches (trace s) @ windows (STREAM_LIMIT cfg) R offset \<and>
         batchCount s'
           = batchCount s
               + length (table_batch_sizes (BATCH_SIZE cfg) (STREAM_LIMIT cfg) R offset)"
  using assms(1)
proof (induction rule: while_loop_induct)
  case (ended offset s)
  then show ?case by (simp add: windows_none table_batch_sizes_none)
next
  case (thrown offset s)
  with static show ?case by simp
next
  case (no_rows offset s table')
  with static have "table' = table" by simp
  with no_rows static_page(3) [OF no_rows(1) enough P] show ?case by simp
next
  case (page offset s table' s1 r s')
  with static have same: "table' = table" by simp
  let ?l = "min (STREAM_LIMIT cfg) (R - offset)"
  note pg = static_page [OF page(1) enough P]
  from for_loop_frame [OF page(4)] have
    f: "page_fetches (trace s1) = page_fetches (trace s) @ [(?l, offset)]"
    by (simp add: pg(1))
  from for_loop_batchCount [OF page(4) B] have
    b: "batchCount s1 = batchCount s + length (batch_sizes (BATCH_SIZE cfg) ?l)"
    using pg(2) same by simp
  from page(5) same pg(2) have
    "r = Inr ()"
    "page_fetches (trace s')
       = page_fetches (trace s1) @ windows (STREAM_LIMIT cfg) R (offset + ?l)"
    "batchCount s' = batchCount s1
       + length (table_batch_sizes (BATCH_SIZE cfg) (STREAM_LIMIT cfg) R (offset + ?l))"
    by simp_all
  with f b show ?case
    by (simp add: windows_step [OF page(1) P] table_batch_sizes_step [OF page(1) P])
qed


text \<open>When, on such a table, the target refuses every insert, every batch is given up.\<close>

lemma while_loop_static_refused:
  assumes "while_loop cfg env R offset s = Some (r, s')"
    and static: "\<forall>k. source env k = Some table" and enough: "R \<le> length table"
    and refused: "\<forall>k. \<not> insert_ok env k"
    and P: "0 < STREAM_LIMIT cfg" and B: "0 < BATCH_SIZE cfg" and M: "0 < MAX_RETRIES cfg"
  shows "abandoned_batches (trace s')
           = abandoned_batches (trace s)
               @ [batchCount s + 1 ..<
                    batchCount s + 1
                      + length (table_batch_sizes (BATCH_SIZE cfg) (STREAM_LIMIT cfg) R offset)]"
  using assms(1)
proof (induction rule: while_loop_induct)
  case (ended offset s)
  then show ?case by (simp add: table_batch_sizes_none)
next
  case (thrown offset s)
  with static show ?case by simp
next
  case (no_rows offset s table')
  with static have "table' = table" by simp
  with no_rows static_page(3) [OF no_rows(1) enough P] show ?case by simp
next
  case (page offset s table' s1 r s')
  with static have same: "table' = table" by simp
  let ?l = "min (STREAM_LIMIT cfg) (R - offset)"
  let ?n1 = "length (batch_sizes (BATCH_SIZE cfg) ?l)"
  let ?n2 = "length (table_batch_sizes (BATCH_SIZE cfg) (STREAM_LIMIT cfg) R (offset + ?l))"
  note pg = static_page [OF page(1) enough P]
  from for_loop_all_refused [OF page(4) refused M B] same pg(2) have one:
    "abandoned_batches (trace s1)
       = abandoned_batches (trace s) @ [batchCount s + 1 ..< batchCount s + 1 + ?n1]"
    by simp
  from for_loop_batchCount [OF page(4) B] same pg(2) have
    b: "batchCount s1 = batchCount s + ?n1"
    by simp
  from page(5) same pg(2) b have rest:
    "abandoned_batches (trace s')
       = abandoned_batches (trace s1)
           @ [batchCount s + 1 + ?n1 ..< batchCount s + 1 + ?n1 + ?n2]"
    by (simp add: add.commute add.left_commute)
  have "[batchCount s + 1 ..< batchCount s + 1 + ?n1 + ?n2]
      = [batchCount s + 1 ..< batchCount s + 1 + ?n1]
          @ [batchCount s + 1 + ?n1 ..< batchCount s + 1 + ?n1 + ?n2]"
    by (rule upt_add_eq_append) simp
  with one rest show ?case
    by (simp add: table_batch_sizes_step [OF page(1) P] add.assoc)
qed

section \<open>A transfer without failures\<close>

lemma scenario_windows:
  "windows 10 12 0 = [(10, 0), (2, 10)]"
  "table_batch_sizes 5 10 12 0 = [5, 5, 2]"
  by (simp_all add: table_batch_sizes_def windows.simps batch_sizes.simps)



section \<open>A transfer whose inserts are all refused\<close>

text \<open>
  The orchestrator, when the metadata queries, the DDL and the count of the target
  succeed and the transfer returns \<open>n\<close>: it exits with code 0 and its last line says
  whether all rows were copied or how many were not.
\<close>

lemma copyTable_reported:
  assumes "describe_reply env = Some columns" and "count_reply env = Some R"
    and "\<forall>k. pg_ok env k"
    and copy: "\<And>s. \<exists>s'. copyTableDataStream cfg env R s = Some (Inr n, s')"
  shows "\<exists>s'. copyTable cfg env = Some (0, s') \<and>
           last (trace s') = (if n = R then AllCopied else PartialSuccess (int R - int n))"
proof -
  obtain s1 where a: "analysed env = (Inr (columns, R), s1)"
    using assms(1,2) by (simp add: analysed_def)
  obtain s2 where c: "createPostgreSQLTable env tableName columns (tick s1) = (Inr (), s2)"
    using assms(3) by (simp add: createPostgreSQLTable_def)
  from a c have t: "table_created env (analysed env) = (Inr R, tick s2)"
    by (simp add: table_created_def)
  from copy [of "tick (tick s2)"] obtain s3 where
    d: "copyTableDataStream cfg env R (tick (tick s2)) = Some (Inr n, s3)" by blast
  from t d have dc: "data_copied cfg env (table_created env (analysed env))
      = Some (Inr (R, n), tick s3)"
    by (simp add: data_copied_def)
  obtain s4 where cc: "counts_checked env (Some (Inr (R, n), tick s3)) = Some (Inr (R, n), s4)"
    using assms(3) by (simp add: counts_checked_def)
  have "reported (Some (Inr (R, n), s4))
      = Some (0, emit (if n = R then AllCopied else PartialSuccess (int R - int n))
                   (sampled (tick s4)))"
    by (simp add: reported_def)
  with dc cc show ?thesis
    by (simp add: copyTable_def)
qed

text \<open>
  C4. When the target refuses every insert (and no page fetch fails, and the batch size
  is positive), the transfer returns 0 and raises nothing, and nothing is accepted. On
  a table that does not change the loop goes on over every page to the end of the
  table, and every batch, from the first to the last, is given up after its retries.
  The orchestrator then exits with code 0, not through its catch block, and its last
  line reports a partial success with all \<open>totalRows\<close> rows not copied (for an empty
  table there is nothing to copy and it reports success).
\<close>

theorem all_inserts_refused:
  assumes refused: "\<forall>k. \<not> insert_ok env k" and fetched: "\<forall>k. source env k \<noteq> None"
    and B: "0 < BATCH_SIZE cfg"
  shows "(\<exists>s' ev. copyTableDataStream cfg env totalRows s = Some (Inr 0, s') \<and>
            trace s' = trace s @ ev \<and> accepted_batches ev = [] \<and>
            ((\<forall>k. source env k = Some table) \<and> totalRows \<le> length table \<and>
             0 < STREAM_LIMIT cfg \<and> 0 < MAX_RETRIES cfg \<longrightarrow>
               page_fetches ev = windows (STREAM_LIMIT cfg) totalRows 0 \<and>
               abandoned_batches ev
                 = [1 ..< 1 + length (table_batch_sizes (BATCH_SIZE cfg) (STREAM_LIMIT cfg)
                                        totalRows 0)])) \<and>
         (describe_reply env = Some columns \<and> count_reply env = Some totalRows \<and>
          (\<forall>k. pg_ok env k) \<longrightarrow>
            (\<exists>s'. copyTable cfg env = Some (0, s') \<and>
                  last (trace s')
                    = (if totalRows = 0 then AllCopied else PartialSuccess (int totalRows))))"
proof -
  have transfer: "\<exists>s' ev. copyTableDataStream cfg env totalRows s = Some (Inr 0, s') \<and>
            trace s' = trace s @ ev \<and> accepted_batches ev = [] \<and>
            ((\<forall>k. source env k = Some table) \<and> totalRows \<le> length table \<and>
             0 < STREAM_LIMIT cfg \<and> 0 < MAX_RETRIES cfg \<longrightarrow>
               page_fetches ev = windows (STREAM_LIMIT cfg) totalRows 0 \<and>
               abandoned_batches ev
                 = [1 ..< 1 + length (table_batch_sizes (BATCH_SIZE cfg) (STREAM_LIMIT cfg)
                                        totalRows 0)])" for s :: "'a state"
  proof -
    let ?s0 = "copy_started env s"
    from while_loop_terminates [OF B] obtain rw sw where
      loop: "while_loop cfg env totalRows 0 ?s0 = Some (rw, sw)" by blast
    from while_loop_no_error [OF loop fetched] have rw: "rw = Inr ()" .
    from while_loop_none_accepted [OF loop refused] have
      ti: "totalInserted sw = 0"
      and ac: "accepted_batches (trace sw) = accepted_batches (trace s)"
      by simp_all
    let ?s' = "copy_completed env totalRows sw"
    from loop rw ti have ret: "copyTableDataStream cfg env totalRows s = Some (Inr 0, ?s')"
      by (simp add: copyTableDataStream_returns)
    have "prefix (trace s) (trace sw)"
      using while_loop_prefix [OF loop] by simp
    also have "prefix \<dots> (trace ?s')" by simp
    finally obtain ev where ev: "trace ?s' = trace s @ ev"
      by (auto simp: prefix_def)
    have "accepted_batches (trace ?s') = accepted_batches (trace s)"
      using ac by simp
    then have none: "accepted_batches ev = []"
      unfolding ev by simp
    have whole: "(\<forall>k. source env k = Some table) \<and> totalRows \<le> length table \<and>
             0 < STREAM_LIMIT cfg \<and> 0 < MAX_RETRIES cfg \<longrightarrow>
               page_fetches ev = windows (STREAM_LIMIT cfg) totalRows 0 \<and>
               abandoned_batches ev
                 = [1 ..< 1 + length (table_batch_sizes (BATCH_SIZE cfg) (STREAM_LIMIT cfg)
                                        totalRows 0)]"
    proof (intro impI, elim conjE)
      assume static: "\<forall>k. source env k = Some table" and enough: "totalRows \<le> length table"
        and P: "0 < STREAM_LIMIT cfg" and M: "0 < MAX_RETRIES cfg"
      from while_loop_static [OF loop static enough P B] have
        "page_fetches (trace ?s')
           = page_fetches (trace s) @ windows (STREAM_LIMIT cfg) totalRows 0"
        by simp
      then have 1: "page_fetches ev = windows (STREAM_LIMIT cfg) totalRows 0"
        unfolding ev by simp
      from while_loop_static_refused [OF loop static enough refused P B M] have
        "abandoned_batches (trace ?s')
           = abandoned_batches (trace s)
               @ [1 ..< 1 + length (table_batch_sizes (BATCH_SIZE cfg) (STREAM_LIMIT cfg)
                                      totalRows 0)]"
        by simp
      then have 2: "abandoned_batches ev
          = [1 ..< 1 + length (table_batch_sizes (BATCH_SIZE cfg) (STREAM_LIMIT cfg)
                                 totalRows 0)]"
        unfolding ev by simp
      from 1 2 show "page_fetches ev = windows (STREAM_LIMIT cfg) totalRows 0 \<and>
               abandoned_batches ev
                 = [1 ..< 1 + length (table_batch_sizes (BATCH_SIZE cfg) (STREAM_LIMIT cfg)
                                        totalRows 0)]"
        by (rule conjI)
    qed
    show ?thesis
      by (intro exI [of _ "?s'"] exI [of _ ev] conjI ret ev none whole)
  qed
  have report: "describe_reply env = Some columns \<and> count_reply env = Some totalRows \<and>
          (\<forall>k. pg_ok env k) \<longrightarrow>
            (\<exists>s'. copyTable cfg env = Some (0, s') \<and>
                  last (trace s')
                    = (if totalRows = 0 then AllCopied else PartialSuccess (int totalRows)))"
  proof (intro impI, elim conjE)
    assume d: "describe_reply env = Some columns" and c: "count_reply env = Some totalRows"
      and p: "\<forall>k. pg_ok env k"
    have "\<exists>s'. copyTableDataStream cfg env totalRows s = Some (Inr 0, s')" for s :: "'a state"
      using transfer [of s] by blast
    from copyTable_reported [OF d c p this]
    show "\<exists>s'. copyTable cfg env = Some (0, s') \<and>
                  last (trace s')
                    = (if totalRows = 0 then AllCopied else PartialSuccess (int totalRows))"
      by (auto simp: eq_commute [of 0 totalRows])
  qed
  from transfer [of s] report show ?thesis by (rule conjI)
qed

theorem all_inserts_refused_witness:
  "(\<exists>s'. copyTableDataStream scenario_config (refusing twelve_rows) 12 fresh = Some (Inr 0, s') \<and>
         accepted_batches (trace s') = [] \<and>
         page_fetches (trace s') = [(10, 0), (2, 10)] \<and>
         abandoned_batches (trace s') = [1, 2, 3]) \<and>
   (\<exists>s'. copyTable scenario_config (refusing twelve_rows) = Some (0, s') \<and>
         last (trace s') = PartialSuccess 12)"
proof -
  have h: "\<forall>k. \<not> insert_ok (refusing twelve_rows) k"
    "\<forall>k. source (refusing twelve_rows) k \<noteq> None"
    "0 < BATCH_SIZE scenario_config"
    by (simp_all add: refusing_def steady_def scenario_config_def)
  have static: "(\<forall>k. source (refusing twelve_rows) k = Some twelve_rows) \<and>
      12 \<le> length twelve_rows \<and> 0 < STREAM_LIMIT scenario_config \<and>
      0 < MAX_RETRIES scenario_config"
    by (simp add: refusing_def steady_def scenario_config_def twelve_rows_def)
  have meta: "describe_reply (refusing twelve_rows) = Some [] \<and>
      count_reply (refusing twelve_rows) = Some 12 \<and> (\<forall>k. pg_ok (refusing twelve_rows) k)"
    by (simp add: refusing_def steady_def twelve_rows_def)
  have c: "BATCH_SIZE scenario_config = 5" "STREAM_LIMIT scenario_config = 10"
    by (simp_all add: scenario_config_def)
  have upt: "[1 ..< 1 + length [5, 5, 2 :: nat]] = [1, 2, 3 :: nat]"
    by (simp add: upt_conv_Cons)
  note th = all_inserts_refused [OF h, of 12 fresh twelve_rows "[]"]
  from th [THEN conjunct1] static c upt
  have "\<exists>s'. copyTableDataStream scenario_config (refusing twelve_rows) 12 fresh = Some (Inr 0, s') \<and>
         accepted_batches (trace s') = [] \<and>
         page_fetches (trace s') = [(10, 0), (2, 10)] \<and>
         abandoned_batches (trace s') = [1, 2, 3]"
    by (auto simp: fresh_def scenario_windows)
  moreover from th [THEN conjunct2] meta
  have "\<exists>s'. copyTable scenario_config (refusing twelve_rows) = Some (0, s') \<and>
         last (trace s') = PartialSuccess 12"
    by simp
  ultimately show ?thesis by (rule conjI)
qed

end
